theory Spec2Isabelle
  imports Complex_Main "HOL-Library.Word"
begin

section \<open>Configuration (types.ts)\<close>

text \<open>
  The interfaces of \<^verbatim>\<open>types.ts\<close>. A JavaScript \<^verbatim>\<open>number\<close> that counts grid rows or
  columns is a natural number, one that is compared with frame indices is an integer, and
  one that measures pixels (crop margins, scale, image size) is a real number, namely
  the value of a double. The four margins of \<^verbatim>\<open>CropConfig\<close> carry the suffix
  \<open>_px\<close>, since \<open>top\<close> is a constant of HOL. The fields are all present, so the
  defaults of the destructuring in \<^verbatim>\<open>generateGif\<close> play no part.
\<close>

record CropConfig =
  top_px :: real
  bottom_px :: real
  left_px :: real
  right_px :: real

datatype ReadOrder = RowMajor | ColumnMajor

datatype AlignMode = Center | Bottom

record SpriteConfig =
  rows :: nat
  cols :: nat
  totalFrames :: int
  excludedFrames :: "int list"
  fps :: real
  scale :: real
  transparent :: "string option"
  tolerance :: real
  useFloodFill :: bool
  autoAlign :: bool
  alignMode :: AlignMode
  readOrder :: ReadOrder
  crop :: CropConfig
  maxResolution1024 :: bool

record ImageDimensions =
  width :: real
  height :: real

section \<open>JavaScript numbers\<close>

text \<open>
  A \<^verbatim>\<open>number\<close> is an IEEE 754 double. The finite doubles are reals, and an arithmetic
  operation returns the exact result rounded to the nearest double, ties to the even
  significand: 53 significant bits, with the exponent of the least bit held at \<open>-1074\<close>
  for subnormal results. \<open>expo x\<close> is the binary exponent of \<open>x\<close>, \<open>ulp x\<close> the weight of
  the least bit of the double format at \<open>x\<close>, and \<open>dbl x\<close> the double nearest to \<open>x\<close>.
  A result of magnitude \<open>2 ^ 1024\<close> or more stands for the infinity of its sign; division
  by zero and \<^verbatim>\<open>NaN\<close> have no counterpart here, and the theorems about the pipeline
  take \<open>rows\<close> and \<open>cols\<close> other than zero.
\<close>

definition expo :: "real \<Rightarrow> int" where
  "expo x = \<lfloor>log 2 \<bar>x\<bar>\<rfloor>"

definition ulp :: "real \<Rightarrow> real" where
  "ulp x = 2 powi (max (expo x) (- 1022) - 52)"

definition roundHalfEven :: "real \<Rightarrow> int" where
  "roundHalfEven y =
     (let f = \<lfloor>y\<rfloor>; r = y - real_of_int f
      in if r < 1 / 2 then f else if r > 1 / 2 then f + 1 else if even f then f else f + 1)"

definition dbl :: "real \<Rightarrow> real" where
  "dbl x = (if x = 0 then 0 else real_of_int (roundHalfEven (x / ulp x)) * ulp x)"

text \<open>The operators \<^verbatim>\<open>+\<close>, \<^verbatim>\<open>-\<close>, \<^verbatim>\<open>*\<close> and \<^verbatim>\<open>/\<close> on numbers.\<close>

definition fadd :: "real \<Rightarrow> real \<Rightarrow> real" where
  "fadd a b = dbl (a + b)"

definition fsub :: "real \<Rightarrow> real \<Rightarrow> real" where
  "fsub a b = dbl (a - b)"

definition fmul :: "real \<Rightarrow> real \<Rightarrow> real" where
  "fmul a b = dbl (a * b)"

definition fdiv :: "real \<Rightarrow> real \<Rightarrow> real" where
  "fdiv a b = dbl (a / b)"

section \<open>Frame sequencer (generateGif, lines 272-302; PreviewPlayer.getValidFrameIndices)\<close>

text \<open>An entry of \<^verbatim>\<open>tempCoords\<close> and of \<^verbatim>\<open>validFrameCoordinates\<close>: \<^verbatim>\<open>{ r, c, index }\<close>.\<close>

record FrameCoord =
  fr :: nat
  fc :: nat
  originalIndex :: int

text \<open>
  The two nested loops that fill \<^verbatim>\<open>tempCoords\<close>: column-major runs \<^verbatim>\<open>c\<close> outside and
  \<^verbatim>\<open>r\<close> inside with \<^verbatim>\<open>index = c * rows + r\<close>; otherwise \<^verbatim>\<open>r\<close> outside and \<^verbatim>\<open>c\<close>
  inside with \<^verbatim>\<open>index = r * cols + c\<close>.
\<close>

definition tempCoords :: "ReadOrder \<Rightarrow> nat \<Rightarrow> nat \<Rightarrow> FrameCoord list" where
  "tempCoords ro nrows ncols =
     (if ro = ColumnMajor
      then concat (map (\<lambda>c. map (\<lambda>r. \<lparr>fr = r, fc = c, originalIndex = int (c * nrows + r)\<rparr>)
                                  [0..<nrows]) [0..<ncols])
      else concat (map (\<lambda>r. map (\<lambda>c. \<lparr>fr = r, fc = c, originalIndex = int (r * ncols + c)\<rparr>)
                                  [0..<ncols]) [0..<nrows]))"

text \<open>The filter loop: keep \<^verbatim>\<open>item.index < totalFrames && !excludedFrames.includes(item.index)\<close>.\<close>

definition validFrameCoordinates ::
  "ReadOrder \<Rightarrow> nat \<Rightarrow> nat \<Rightarrow> int \<Rightarrow> int list \<Rightarrow> FrameCoord list" where
  "validFrameCoordinates ro nrows ncols nframes excluded =
     filter (\<lambda>item. originalIndex item < nframes \<and> originalIndex item \<notin> set excluded)
            (tempCoords ro nrows ncols)"

text \<open>
  \<^verbatim>\<open>getValidFrameIndices\<close> of the preview player: the same two traversals, testing and
  pushing the index inside the inner loop.
\<close>

definition getValidFrameIndices :: "SpriteConfig \<Rightarrow> int list" where
  "getValidFrameIndices config =
     (if readOrder config = ColumnMajor
      then concat (map (\<lambda>c. concat (map (\<lambda>r.
              (let i = int (c * rows config + r)
               in if i < totalFrames config \<and> i \<notin> set (excludedFrames config) then [i] else []))
              [0..<rows config])) [0..<cols config])
      else concat (map (\<lambda>r. concat (map (\<lambda>c.
              (let i = int (r * cols config + c)
               in if i < totalFrames config \<and> i \<notin> set (excludedFrames config) then [i] else []))
              [0..<cols config])) [0..<rows config]))"

section \<open>Pixel buffers\<close>

text \<open>
  A \<^verbatim>\<open>Uint8ClampedArray\<close> (and the \<^verbatim>\<open>Uint8Array\<close> \<^verbatim>\<open>visited\<close>) is a list of
  bytes. Reading outside the array gives \<^verbatim>\<open>undefined\<close> (\<open>None\<close>), writing outside it
  does nothing, and a stored number is clamped to \<open>0..255\<close>.
\<close>

type_synonym byte = "8 word"

record RGB =
  red :: int
  green :: int
  blue :: int

definition rdb :: "byte list \<Rightarrow> int \<Rightarrow> int option" where
  "rdb xs i = (if 0 \<le> i \<and> i < int (length xs) then Some (uint (xs ! nat i)) else None)"

definition clamp8 :: "int \<Rightarrow> byte" where
  "clamp8 v = word_of_int (max 0 (min 255 v))"

definition wrb :: "byte list \<Rightarrow> int \<Rightarrow> int \<Rightarrow> byte list" where
  "wrb xs i v = (if 0 \<le> i \<and> i < int (length xs) then xs[nat i := clamp8 v] else xs)"

text \<open>The truth value of an array element: \<^verbatim>\<open>undefined\<close> and \<open>0\<close> are false.\<close>

definition truthy :: "int option \<Rightarrow> bool" where
  "truthy v = (case v of None \<Rightarrow> False | Some n \<Rightarrow> n \<noteq> 0)"

text \<open>
  \<^verbatim>\<open>(r - tr) * (r - tr) + (g - tg) * (g - tg) + (b - tb) * (b - tb)\<close>; with an
  \<^verbatim>\<open>undefined\<close> channel the sum is \<^verbatim>\<open>NaN\<close> (\<open>None\<close>), and every comparison with it is
  false.
\<close>

definition distSq :: "int option \<Rightarrow> int option \<Rightarrow> int option \<Rightarrow> RGB \<Rightarrow> int option" where
  "distSq r g b t =
     (case (r, g, b) of
        (Some rv, Some gv, Some bv) \<Rightarrow>
          Some ((rv - red t) * (rv - red t) + (gv - green t) * (gv - green t)
                + (bv - blue t) * (bv - blue t))
      | _ \<Rightarrow> None)"

section \<open>Chroma key: flood fill (applyFloodFill; PreviewPlayer.processTransparency)\<close>

text \<open>The closure \<^verbatim>\<open>matches\<close> of \<^verbatim>\<open>applyFloodFill\<close>.\<close>

definition matches :: "RGB \<Rightarrow> real \<Rightarrow> byte list \<Rightarrow> int \<Rightarrow> bool" where
  "matches targetRGB thresholdSq data idx =
     (let r = rdb data idx; g = rdb data (idx + 1); b = rdb data (idx + 2);
          a = rdb data (idx + 3)
      in if a = Some 0 then True
         else (case distSq r g b targetRGB of
                 None \<Rightarrow> False
               | Some d \<Rightarrow> real_of_int d \<le> thresholdSq))"

text \<open>The four stores of the loop body: the key colour, fully opaque.\<close>

definition paintKey :: "RGB \<Rightarrow> byte list \<Rightarrow> int \<Rightarrow> byte list" where
  "paintKey keyColor data idx =
     wrb (wrb (wrb (wrb data idx (red keyColor)) (idx + 1) (green keyColor))
              (idx + 2) (blue keyColor)) (idx + 3) 255"

text \<open>
  The preview player's flood fill has the same loop with another test,
  \<^verbatim>\<open>data[pIdx + 3] > 0 && matches(pIdx)\<close> where its \<^verbatim>\<open>matches\<close> looks at the colour
  only, and another store, \<^verbatim>\<open>data[pIdx + 3] = 0\<close>.
\<close>

definition previewMatches :: "RGB \<Rightarrow> real \<Rightarrow> byte list \<Rightarrow> int \<Rightarrow> bool" where
  "previewMatches targetRGB thresholdSq data pIdx =
     ((case rdb data (pIdx + 3) of None \<Rightarrow> False | Some a \<Rightarrow> a > 0)
      \<and> (case distSq (rdb data pIdx) (rdb data (pIdx + 1)) (rdb data (pIdx + 2)) targetRGB of
            None \<Rightarrow> False
          | Some d \<Rightarrow> real_of_int d \<le> thresholdSq))"

definition clearAlpha :: "byte list \<Rightarrow> int \<Rightarrow> byte list" where
  "clearAlpha data pIdx = wrb data (pIdx + 3) 0"

text \<open>
  The variables of the flood fill: the pixel data (mutated in place), \<^verbatim>\<open>visited\<close>,
  \<^verbatim>\<open>queue\<close> and \<^verbatim>\<open>head\<close>. The field \<open>touched\<close> is not a variable of the source: it
  records, in order, the byte offset of every pixel the run reads with the match test or
  overwrites (the access covers the four bytes from that offset on).
\<close>

record flood =
  fdata :: "byte list"
  visited :: "byte list"
  queue :: "int list"
  head :: nat
  touched :: "int list"

text \<open>
  \<^verbatim>\<open>addSeed(x, y)\<close>. The match test \<open>M\<close> and the store \<open>P\<close> of the loop body are
  parameters, since the export path and the preview path differ in nothing else.
\<close>

definition addSeed :: "(byte list \<Rightarrow> int \<Rightarrow> bool) \<Rightarrow> nat \<Rightarrow> int \<Rightarrow> int \<Rightarrow> flood \<Rightarrow> flood" where
  "addSeed M w x y st =
     (let idx = (y * int w + x) * 4; vIdx = y * int w + x
      in if truthy (rdb (visited st) vIdx) then st
         else if M (fdata st) idx
              then st\<lparr>visited := wrb (visited st) vIdx 1, queue := queue st @ [vIdx],
                      touched := touched st @ [idx]\<rparr>
              else st\<lparr>touched := touched st @ [idx]\<rparr>)"

text \<open>
  The two seeding loops: \<^verbatim>\<open>for x in [0, width)\<close> the cells \<^verbatim>\<open>(x, 0)\<close> and
  \<^verbatim>\<open>(x, height - 1)\<close>, then \<^verbatim>\<open>for y in [1, height - 1)\<close> the cells \<^verbatim>\<open>(0, y)\<close> and
  \<^verbatim>\<open>(width - 1, y)\<close>.
\<close>

definition seedEdges :: "(byte list \<Rightarrow> int \<Rightarrow> bool) \<Rightarrow> nat \<Rightarrow> nat \<Rightarrow> flood \<Rightarrow> flood" where
  "seedEdges M w h st =
     fold (\<lambda>y s. addSeed M w (int w - 1) (int y) (addSeed M w 0 (int y) s)) [1..<h - 1]
       (fold (\<lambda>x s. addSeed M w (int x) (int h - 1) (addSeed M w (int x) 0 s)) [0..<w] st)"

text \<open>The body of \<^verbatim>\<open>for (const { nx, ny } of neighbors)\<close>.\<close>

definition visit :: "(byte list \<Rightarrow> int \<Rightarrow> bool) \<Rightarrow> nat \<Rightarrow> nat \<Rightarrow> int \<times> int \<Rightarrow> flood \<Rightarrow> flood" where
  "visit M w h n st =
     (case n of (nx, ny) \<Rightarrow>
        if nx \<ge> 0 \<and> nx < int w \<and> ny \<ge> 0 \<and> ny < int h
        then (let nVIdx = ny * int w + nx
              in if \<not> truthy (rdb (visited st) nVIdx)
                 then (let nIdx = nVIdx * 4
                       in if M (fdata st) nIdx
                          then st\<lparr>visited := wrb (visited st) nVIdx 1,
                                  queue := queue st @ [nVIdx],
                                  touched := touched st @ [nIdx]\<rparr>
                          else st\<lparr>touched := touched st @ [nIdx]\<rparr>)
                 else st)
        else st)"

text \<open>
  JavaScript's \<^verbatim>\<open>%\<close> on integers: the remainder takes the sign of the dividend.
\<close>

definition jsRem :: "int \<Rightarrow> int \<Rightarrow> int" where
  "jsRem a b = sgn a * (\<bar>a\<bar> mod \<bar>b\<bar>)"

text \<open>
  One iteration of \<^verbatim>\<open>while (head < queue.length)\<close>, with \<^verbatim>\<open>x = vIdx % width\<close> and
  \<^verbatim>\<open>y = Math.floor(vIdx / width)\<close>.
\<close>

definition floodStep ::
  "(byte list \<Rightarrow> int \<Rightarrow> bool) \<Rightarrow> (byte list \<Rightarrow> int \<Rightarrow> byte list) \<Rightarrow> nat \<Rightarrow> nat
   \<Rightarrow> flood \<Rightarrow> flood" where
  "floodStep M P w h st =
     (let vIdx = queue st ! head st;
          idx = vIdx * 4;
          st1 = st\<lparr>head := head st + 1, fdata := P (fdata st) idx,
                    touched := touched st @ [idx]\<rparr>;
          x = jsRem vIdx (int w);
          y = vIdx div int w
      in fold (visit M w h) [(x + 1, y), (x - 1, y), (x, y + 1), (x, y - 1)] st1)"

text \<open>The loop itself; \<open>None\<close> is a run that never ends.\<close>

partial_function (option) floodLoop ::
  "(byte list \<Rightarrow> int \<Rightarrow> bool) \<Rightarrow> (byte list \<Rightarrow> int \<Rightarrow> byte list) \<Rightarrow> nat \<Rightarrow> nat
   \<Rightarrow> flood \<Rightarrow> flood option" where
  "floodLoop M P w h st =
     (if head st < length (queue st) then floodLoop M P w h (floodStep M P w h st)
      else Some st)"

declare floodLoop.simps [code]

definition floodFrom ::
  "(byte list \<Rightarrow> int \<Rightarrow> bool) \<Rightarrow> (byte list \<Rightarrow> int \<Rightarrow> byte list) \<Rightarrow> nat \<Rightarrow> nat
   \<Rightarrow> byte list \<Rightarrow> flood option" where
  "floodFrom M P w h data =
     floodLoop M P w h
       (seedEdges M w h
          \<lparr>fdata = data, visited = replicate (w * h) 0, queue = [], head = 0, touched = []\<rparr>)"

text \<open>
  \<^verbatim>\<open>applyFloodFill(data, width, height, targetRGB, keyColor, thresholdSq)\<close>; the array it
  mutates is \<open>fdata\<close> of the final state.
\<close>

definition applyFloodFill ::
  "byte list \<Rightarrow> nat \<Rightarrow> nat \<Rightarrow> RGB \<Rightarrow> RGB \<Rightarrow> real \<Rightarrow> flood option" where
  "applyFloodFill data w h targetRGB keyColor thresholdSq =
     floodFrom (matches targetRGB thresholdSq) (paintKey keyColor) w h data"

text \<open>The flood-fill branch of \<^verbatim>\<open>processTransparency\<close> (preview player, lines 50-98).\<close>

definition processTransparencyFlood ::
  "byte list \<Rightarrow> nat \<Rightarrow> nat \<Rightarrow> RGB \<Rightarrow> real \<Rightarrow> flood option" where
  "processTransparencyFlood data w h targetRGB thresholdSq =
     floodFrom (previewMatches targetRGB thresholdSq) clearAlpha w h data"

section \<open>Chroma key: global mode (generateGif, lines 502-515)\<close>

text \<open>The body of \<^verbatim>\<open>for (let p = 0; p < data.length; p += 4)\<close>.\<close>

definition globalStep :: "RGB \<Rightarrow> RGB \<Rightarrow> real \<Rightarrow> int \<Rightarrow> byte list \<Rightarrow> byte list" where
  "globalStep targetRGB keyColor thresholdSq p data =
     (let r = rdb data p; g = rdb data (p + 1); b = rdb data (p + 2); a = rdb data (p + 3)
      in if a = Some 0 then paintKey keyColor data p
         else (case distSq r g b targetRGB of
                 None \<Rightarrow> data
               | Some d \<Rightarrow> if real_of_int d \<le> thresholdSq then paintKey keyColor data p
                           else data))"

definition globalKey :: "byte list \<Rightarrow> RGB \<Rightarrow> RGB \<Rightarrow> real \<Rightarrow> byte list" where
  "globalKey data targetRGB keyColor thresholdSq =
     fold (globalStep targetRGB keyColor thresholdSq)
          (map (\<lambda>k. 4 * int k) [0..<(length data + 3) div 4]) data"

section \<open>Bounding-box analyzer (getContentBoundingBox)\<close>

record BoundingBox =
  minX :: int
  minY :: int
  maxX :: int
  maxY :: int
  bwidth :: int
  bheight :: int

text \<open>
  The running variables \<^verbatim>\<open>minX, minY, maxX, maxY, found\<close>. The width and height
  passed to the analyzer are those of the image data, natural numbers.
\<close>

record scan =
  sMinX :: int
  sMinY :: int
  sMaxX :: int
  sMaxY :: int
  found :: bool

definition isContent :: "RGB option \<Rightarrow> real \<Rightarrow> byte list \<Rightarrow> int \<Rightarrow> bool" where
  "isContent transparentRGB thresholdSq data idx =
     (let r = rdb data idx; g = rdb data (idx + 1); b = rdb data (idx + 2);
          a = rdb data (idx + 3)
      in if a = Some 0 then False
         else (case transparentRGB of
                 Some t \<Rightarrow> (case distSq r g b t of
                              None \<Rightarrow> False
                            | Some d \<Rightarrow> real_of_int d > thresholdSq)
               | None \<Rightarrow> True))"

definition scanPixel ::
  "RGB option \<Rightarrow> real \<Rightarrow> byte list \<Rightarrow> nat \<Rightarrow> int \<Rightarrow> int \<Rightarrow> scan \<Rightarrow> scan" where
  "scanPixel transparentRGB thresholdSq data w y x s =
     (let idx = (y * int w + x) * 4
      in if isContent transparentRGB thresholdSq data idx
         then s\<lparr>sMinX := (if x < sMinX s then x else sMinX s),
                sMaxX := (if x > sMaxX s then x else sMaxX s),
                sMinY := (if y < sMinY s then y else sMinY s),
                sMaxY := (if y > sMaxY s then y else sMaxY s),
                found := True\<rparr>
         else s)"

definition getContentBoundingBox ::
  "byte list \<Rightarrow> nat \<Rightarrow> nat \<Rightarrow> RGB option \<Rightarrow> real \<Rightarrow> BoundingBox option" where
  "getContentBoundingBox data w h transparentRGB thresholdSq =
     (let s = fold (\<lambda>y s. fold (\<lambda>x s. scanPixel transparentRGB thresholdSq data w (int y) (int x) s)
                               [0..<w] s)
                   [0..<h]
                   \<lparr>sMinX = int w, sMinY = int h, sMaxX = 0, sMaxY = 0, found = False\<rparr>
      in if \<not> found s then None
         else Some \<lparr>minX = sMinX s, minY = sMinY s, maxX = sMaxX s, maxY = sMaxY s,
                     bwidth = sMaxX s - sMinX s + 1, bheight = sMaxY s - sMinY s + 1\<rparr>)"

section \<open>The export pipeline (generateGif)\<close>

text \<open>\<^verbatim>\<open>hexToRgb\<close>: an optional \<^verbatim>\<open>#\<close> and exactly six hexadecimal digits, in either case.\<close>

definition hexDigit :: "char \<Rightarrow> int option" where
  "hexDigit ch =
     (let n = int (of_char ch)
      in if 48 \<le> n \<and> n \<le> 57 then Some (n - 48)
         else if 97 \<le> n \<and> n \<le> 102 then Some (n - 87)
         else if 65 \<le> n \<and> n \<le> 70 then Some (n - 55)
         else None)"

definition hexToRgb :: "string \<Rightarrow> RGB option" where
  "hexToRgb hex =
     (let digits = (case hex of ch # rest \<Rightarrow> if ch = CHR ''#'' then rest else hex | [] \<Rightarrow> hex)
      in case map hexDigit digits of
           [Some r1, Some r2, Some g1, Some g2, Some b1, Some b2] \<Rightarrow>
             Some \<lparr>red = 16 * r1 + r2, green = 16 * g1 + g2, blue = 16 * b1 + b2\<rparr>
         | _ \<Rightarrow> None)"

text \<open>
  What the browser contributes to a run: whether each \<^verbatim>\<open>getContext('2d')\<close> returns a
  context, and, for the cell in row \<open>r\<close> and column \<open>c\<close>, the value that
  \<^verbatim>\<open>getContentBoundingBox\<close> returns on the pixels read back from the analysis canvas.
\<close>

record Browser =
  analysisCtx :: bool
  bufferCtx :: bool
  outputCtx :: bool
  analysed :: "nat \<Rightarrow> nat \<Rightarrow> BoundingBox option"

datatype Canvas = AnalysisCanvas | BufferCanvas | OutputCanvas

text \<open>The calls the pipeline makes on canvases and on the GIF encoder, in order.\<close>

datatype Call =
    CreateCanvas Canvas real real
  | ClearRect Canvas real real
  | FillWhite Canvas real real
  | DrawImage Canvas real real real real real real real real
  | GetImageData Canvas real real
  | FloodFill RGB RGB real
  | GlobalFill RGB RGB real
  | PutImageData Canvas
  | DrawBuffer real real
  | NewGIF int int "int option"
  | AddFrame Canvas real
  | GifRender

text \<open>
  The three rejections of the promise, in the order of the source: the crop leaves no
  width or height (line 268), no valid frame (line 300), no context for the buffer canvas
  (line 417). The source rejects with messages; the names are those of the
  specification.
\<close>

datatype Failure = InvalidCropError | EmptySequenceError | CanvasAllocationError

text \<open>A string or \<^verbatim>\<open>null\<close> used as a condition: \<^verbatim>\<open>null\<close> and the empty string are false.\<close>

definition isSet :: "string option \<Rightarrow> bool" where
  "isSet t = (case t of None \<Rightarrow> False | Some str \<Rightarrow> str \<noteq> [])"

definition frameWidthRaw :: "SpriteConfig \<Rightarrow> ImageDimensions \<Rightarrow> real" where
  "frameWidthRaw config dimensions = fdiv (width dimensions) (real (cols config))"

definition frameHeightRaw :: "SpriteConfig \<Rightarrow> ImageDimensions \<Rightarrow> real" where
  "frameHeightRaw config dimensions = fdiv (height dimensions) (real (rows config))"

definition cropWidth :: "SpriteConfig \<Rightarrow> ImageDimensions \<Rightarrow> real" where
  "cropWidth config dimensions =
     fsub (fsub (frameWidthRaw config dimensions) (left_px (crop config)))
          (right_px (crop config))"

definition cropHeight :: "SpriteConfig \<Rightarrow> ImageDimensions \<Rightarrow> real" where
  "cropHeight config dimensions =
     fsub (fsub (frameHeightRaw config dimensions) (top_px (crop config)))
          (bottom_px (crop config))"

text \<open>
  Lines 305-323: the target colour, the key colour and the squared threshold. The
  channels are integers below 256, so the squares and their sum are exact, and
  \<^verbatim>\<open>Math.sqrt\<close> rounds the root to the nearest double.
\<close>

definition transparentRGB :: "SpriteConfig \<Rightarrow> RGB option" where
  "transparentRGB config =
     (case transparent config of
        None \<Rightarrow> None
      | Some hex \<Rightarrow> if hex = [] then None else hexToRgb hex)"

definition keyColor :: "SpriteConfig \<Rightarrow> RGB option" where
  "keyColor config =
     (case transparentRGB config of
        None \<Rightarrow> None
      | Some t \<Rightarrow>
          (let distToMagenta =
                 dbl (sqrt (real_of_int ((red t - 255)\<^sup>2 + (green t - 0)\<^sup>2
                                         + (blue t - 255)\<^sup>2)))
           in if distToMagenta < 100 then Some \<lparr>red = 0, green = 255, blue = 0\<rparr>
              else Some \<lparr>red = 255, green = 0, blue = 255\<rparr>))"

definition thresholdSq :: "SpriteConfig \<Rightarrow> real" where
  "thresholdSq config =
     (case transparentRGB config of
        None \<Rightarrow> 0
      | Some t \<Rightarrow> (let maxDist = dbl 441.67;
                      threshold = fmul (fdiv (tolerance config) 100) maxDist
                  in fmul threshold threshold))"

text \<open>
  Lines 337-367, the analysis pass. It runs when \<^verbatim>\<open>autoAlign && analysisCtx\<close>; it fills
  the map \<^verbatim>\<open>frameBBoxes\<close> and returns the largest box width and height seen.
\<close>

definition analysisCalls :: "SpriteConfig \<Rightarrow> ImageDimensions \<Rightarrow> FrameCoord \<Rightarrow> Call list" where
  "analysisCalls config dimensions f =
     [ClearRect AnalysisCanvas (cropWidth config dimensions) (cropHeight config dimensions),
      DrawImage AnalysisCanvas
        (fadd (fmul (real (fc f)) (frameWidthRaw config dimensions)) (left_px (crop config)))
        (fadd (fmul (real (fr f)) (frameHeightRaw config dimensions)) (top_px (crop config)))
        (cropWidth config dimensions) (cropHeight config dimensions)
        0 0 (cropWidth config dimensions) (cropHeight config dimensions),
      GetImageData AnalysisCanvas (cropWidth config dimensions) (cropHeight config dimensions)]"

definition frameBBoxes ::
  "Browser \<Rightarrow> SpriteConfig \<Rightarrow> FrameCoord list \<Rightarrow> (int \<rightharpoonup> BoundingBox option)" where
  "frameBBoxes browser config frames =
     (if autoAlign config \<and> analysisCtx browser
      then fold (\<lambda>f m. m(originalIndex f \<mapsto> analysed browser (fr f) (fc f))) frames Map.empty
      else Map.empty)"

definition maxBox :: "Browser \<Rightarrow> FrameCoord list \<Rightarrow> int \<times> int" where
  "maxBox browser frames =
     fold (\<lambda>f (maxW, maxH).
             (case analysed browser (fr f) (fc f) of
                None \<Rightarrow> (maxW, maxH)
              | Some bbox \<Rightarrow> (max maxW (bwidth bbox), max maxH (bheight bbox))))
          frames (0, 0)"

definition finalSize ::
  "Browser \<Rightarrow> SpriteConfig \<Rightarrow> ImageDimensions \<Rightarrow> FrameCoord list \<Rightarrow> real \<times> real" where
  "finalSize browser config dimensions frames =
     (if autoAlign config \<and> analysisCtx browser
      then (case maxBox browser frames of (maxW, maxH) \<Rightarrow>
              if maxW > 0 \<and> maxH > 0
              then (fadd (real_of_int maxW) 2, fadd (real_of_int maxH) 2)
              else (cropWidth config dimensions, cropHeight config dimensions))
      else (cropWidth config dimensions, cropHeight config dimensions))"

text \<open>
  Lines 372-388: from the logical size to the output size and the resize ratio
  \<^verbatim>\<open>(outputWidth, outputHeight, resizeRatio)\<close>.
\<close>

definition outputSize :: "bool \<Rightarrow> int \<Rightarrow> int \<Rightarrow> int \<times> int \<times> real" where
  "outputSize maxRes logicalWidth logicalHeight =
     (if maxRes
      then (let maxSide = max logicalWidth logicalHeight
            in if maxSide > 1024
               then (let resizeRatio = fdiv 1024 (real_of_int maxSide)
                     in (\<lfloor>fmul (real_of_int logicalWidth) resizeRatio\<rfloor>,
                         \<lfloor>fmul (real_of_int logicalHeight) resizeRatio\<rfloor>, resizeRatio))
               else (logicalWidth, logicalHeight, 1))
      else (logicalWidth, logicalHeight, 1))"

definition logicalWidth ::
  "Browser \<Rightarrow> SpriteConfig \<Rightarrow> ImageDimensions \<Rightarrow> FrameCoord list \<Rightarrow> int" where
  "logicalWidth browser config dimensions frames =
     \<lfloor>fmul (fst (finalSize browser config dimensions frames)) (scale config)\<rfloor>"

definition logicalHeight ::
  "Browser \<Rightarrow> SpriteConfig \<Rightarrow> ImageDimensions \<Rightarrow> FrameCoord list \<Rightarrow> int" where
  "logicalHeight browser config dimensions frames =
     \<lfloor>fmul (snd (finalSize browser config dimensions frames)) (scale config)\<rfloor>"

definition outputWidth ::
  "Browser \<Rightarrow> SpriteConfig \<Rightarrow> ImageDimensions \<Rightarrow> FrameCoord list \<Rightarrow> int" where
  "outputWidth browser config dimensions frames =
     fst (outputSize (maxResolution1024 config)
            (logicalWidth browser config dimensions frames)
            (logicalHeight browser config dimensions frames))"

definition outputHeight ::
  "Browser \<Rightarrow> SpriteConfig \<Rightarrow> ImageDimensions \<Rightarrow> FrameCoord list \<Rightarrow> int" where
  "outputHeight browser config dimensions frames =
     fst (snd (outputSize (maxResolution1024 config)
                 (logicalWidth browser config dimensions frames)
                 (logicalHeight browser config dimensions frames)))"

definition resizeRatio ::
  "Browser \<Rightarrow> SpriteConfig \<Rightarrow> ImageDimensions \<Rightarrow> FrameCoord list \<Rightarrow> real" where
  "resizeRatio browser config dimensions frames =
     snd (snd (outputSize (maxResolution1024 config)
                 (logicalWidth browser config dimensions frames)
                 (logicalHeight browser config dimensions frames)))"

text \<open>
  Lines 439-535, one turn of the render loop for the frame \<open>f\<close>: what is drawn on the
  buffer canvas, the chroma key, and the frame handed to the encoder. The sizes are
  those computed once before the loop.
\<close>

definition drawCalls ::
  "Browser \<Rightarrow> SpriteConfig \<Rightarrow> ImageDimensions \<Rightarrow> FrameCoord list \<Rightarrow> FrameCoord
   \<Rightarrow> Call list" where
  "drawCalls browser config dimensions frames f =
     (if autoAlign config
      then (case frameBBoxes browser config frames (originalIndex f) of
              Some (Some bbox) \<Rightarrow>
                (let lw = real_of_int (logicalWidth browser config dimensions frames);
                     lh = real_of_int (logicalHeight browser config dimensions frames);
                     scaledBboxW =
                       real_of_int \<lfloor>fmul (real_of_int (bwidth bbox)) (scale config)\<rfloor>;
                     scaledBboxH =
                       real_of_int \<lfloor>fmul (real_of_int (bheight bbox)) (scale config)\<rfloor>;
                     destX = real_of_int \<lfloor>fdiv (fsub lw scaledBboxW) 2\<rfloor>;
                     destY = (if alignMode config = Bottom then fsub lh scaledBboxH
                              else real_of_int \<lfloor>fdiv (fsub lh scaledBboxH) 2\<rfloor>)
                 in [DrawImage BufferCanvas
                       (fadd (fadd (fmul (real (fc f)) (frameWidthRaw config dimensions))
                                   (left_px (crop config)))
                             (real_of_int (minX bbox)))
                       (fadd (fadd (fmul (real (fr f)) (frameHeightRaw config dimensions))
                                   (top_px (crop config)))
                             (real_of_int (minY bbox)))
                       (real_of_int (bwidth bbox)) (real_of_int (bheight bbox))
                       destX destY scaledBboxW scaledBboxH])
            | _ \<Rightarrow> [])
      else [DrawImage BufferCanvas
              (fadd (fmul (real (fc f)) (frameWidthRaw config dimensions)) (left_px (crop config)))
              (fadd (fmul (real (fr f)) (frameHeightRaw config dimensions)) (top_px (crop config)))
              (cropWidth config dimensions) (cropHeight config dimensions)
              0 0 (real_of_int (logicalWidth browser config dimensions frames))
                  (real_of_int (logicalHeight browser config dimensions frames))])"

definition keyCalls ::
  "Browser \<Rightarrow> SpriteConfig \<Rightarrow> ImageDimensions \<Rightarrow> FrameCoord list \<Rightarrow> Call list" where
  "keyCalls browser config dimensions frames =
     (case (transparentRGB config, keyColor config) of
        (Some t, Some k) \<Rightarrow>
          [GetImageData BufferCanvas
             (real_of_int (logicalWidth browser config dimensions frames))
             (real_of_int (logicalHeight browser config dimensions frames)),
           (if useFloodFill config then FloodFill t k (thresholdSq config)
            else GlobalFill t k (thresholdSq config)),
           PutImageData BufferCanvas]
      | _ \<Rightarrow> [])"

definition outputCalls ::
  "Browser \<Rightarrow> SpriteConfig \<Rightarrow> ImageDimensions \<Rightarrow> FrameCoord list \<Rightarrow> Call list" where
  "outputCalls browser config dimensions frames =
     (let delay = fdiv 1000 (fps config);
          ow = real_of_int (outputWidth browser config dimensions frames);
          oh = real_of_int (outputHeight browser config dimensions frames)
      in if resizeRatio browser config dimensions frames \<noteq> 1 \<and> outputCtx browser
         then [ClearRect OutputCanvas ow oh]
              @ (if \<not> isSet (transparent config) then [FillWhite OutputCanvas ow oh] else [])
              @ [DrawBuffer ow oh, AddFrame OutputCanvas delay]
         else [AddFrame BufferCanvas delay])"

definition renderFrame ::
  "Browser \<Rightarrow> SpriteConfig \<Rightarrow> ImageDimensions \<Rightarrow> FrameCoord list \<Rightarrow> FrameCoord
   \<Rightarrow> Call list" where
  "renderFrame browser config dimensions frames f =
     (let lw = real_of_int (logicalWidth browser config dimensions frames);
          lh = real_of_int (logicalHeight browser config dimensions frames)
      in [ClearRect BufferCanvas lw lh]
         @ (if \<not> isSet (transparent config) then [FillWhite BufferCanvas lw lh] else [])
         @ drawCalls browser config dimensions frames f
         @ keyCalls browser config dimensions frames
         @ outputCalls browser config dimensions frames)"

text \<open>
  Lines 332-419, before the render loop: the analysis canvas and the analysis pass, the
  encoder with its options, and the buffer canvas.
\<close>

definition setupCalls ::
  "Browser \<Rightarrow> SpriteConfig \<Rightarrow> ImageDimensions \<Rightarrow> FrameCoord list \<Rightarrow> Call list" where
  "setupCalls browser config dimensions frames =
     (let gifTransparent =
            (case keyColor config of
               Some k \<Rightarrow> if isSet (transparent config)
                         then Some (or (or (push_bit 16 (red k)) (push_bit 8 (green k)))
                                       (blue k))
                         else None
             | None \<Rightarrow> None)
      in CreateCanvas AnalysisCanvas (cropWidth config dimensions) (cropHeight config dimensions)
         # (if autoAlign config \<and> analysisCtx browser
            then concat (map (analysisCalls config dimensions) frames) else [])
         @ [NewGIF (outputWidth browser config dimensions frames)
                   (outputHeight browser config dimensions frames) gifTransparent,
            CreateCanvas BufferCanvas
              (real_of_int (logicalWidth browser config dimensions frames))
              (real_of_int (logicalHeight browser config dimensions frames))])"

text \<open>Lines 423-436: the output canvas, created only when the frames are resized.\<close>

definition resizeCalls ::
  "Browser \<Rightarrow> SpriteConfig \<Rightarrow> ImageDimensions \<Rightarrow> FrameCoord list \<Rightarrow> Call list" where
  "resizeCalls browser config dimensions frames =
     (if resizeRatio browser config dimensions frames \<noteq> 1
      then [CreateCanvas OutputCanvas
              (real_of_int (outputWidth browser config dimensions frames))
              (real_of_int (outputHeight browser config dimensions frames))]
      else [])"

text \<open>
  The body of the promise of \<^verbatim>\<open>generateGif\<close>, after the worker script has been
  fetched: the calls made, in order, and the rejection, if any (\<open>None\<close>: the encoder was
  started with \<^verbatim>\<open>gif.render()\<close>). The divisions are those of the source for
  \<open>rows\<close>, \<open>cols\<close> and \<open>fps\<close> other than zero, and all arithmetic on numbers is
  that of doubles.
\<close>

definition generateGif ::
  "Browser \<Rightarrow> SpriteConfig \<Rightarrow> ImageDimensions \<Rightarrow> Call list \<times> Failure option" where
  "generateGif browser config dimensions =
     (if cropWidth config dimensions \<le> 0 \<or> cropHeight config dimensions \<le> 0
      then ([], Some InvalidCropError)
      else
        (let frames = validFrameCoordinates (readOrder config) (rows config) (cols config)
                        (totalFrames config) (excludedFrames config)
         in if length frames = 0 then ([], Some EmptySequenceError)
            else if \<not> bufferCtx browser
            then (setupCalls browser config dimensions frames, Some CanvasAllocationError)
            else (setupCalls browser config dimensions frames
                  @ resizeCalls browser config dimensions frames
                  @ concat (map (renderFrame browser config dimensions frames) frames)
                  @ [GifRender], None)))"

text \<open>The frames handed to the encoder are the \<^verbatim>\<open>gif.addFrame\<close> calls.\<close>

definition isAddFrame :: "Call \<Rightarrow> bool" where
  "isAddFrame call = (case call of AddFrame cv d \<Rightarrow> True | _ \<Rightarrow> False)"


text \<open>Concrete inputs: a sheet of 64 by 64 pixels cut into 2 rows and 2 columns.\<close>

definition sheet64 :: ImageDimensions where
  "sheet64 = \<lparr>width = 64, height = 64\<rparr>"


definition plainBrowser :: Browser where
  "plainBrowser = \<lparr>analysisCtx = True, bufferCtx = True, outputCtx = True,
                 analysed = (\<lambda>r c. None)\<rparr>"

definition overcropped :: SpriteConfig where
  "overcropped =
     \<lparr>rows = 1, cols = 1, totalFrames = 1, excludedFrames = [0], fps = 10, scale = 1,
      transparent = None, tolerance = 10, useFloodFill = True, autoAlign = False,
      alignMode = Center, readOrder = RowMajor,
      crop = \<lparr>top_px = 0, bottom_px = 0, left_px = 40, right_px = 40\<rparr>,
      maxResolution1024 = False\<rparr>"

definition thinCrop :: SpriteConfig where
  "thinCrop =
     \<lparr>rows = 1, cols = 5, totalFrames = 5, excludedFrames = [], fps = 10, scale = 1,
      transparent = None, tolerance = 10, useFloodFill = True, autoAlign = False,
      alignMode = Center, readOrder = RowMajor,
      crop = \<lparr>top_px = 0, bottom_px = 0, left_px = 12,
               right_px = 3602879701896397 / 2 ^ 52\<rparr>,
      maxResolution1024 = False\<rparr>"

definition sheet61 :: ImageDimensions where
  "sheet61 = \<lparr>width = 61, height = 8\<rparr>"

definition sevenfold :: SpriteConfig where
  "sevenfold =
     \<lparr>rows = 1, cols = 7, totalFrames = 7, excludedFrames = [], fps = 10, scale = 7,
      transparent = None, tolerance = 10, useFloodFill = True, autoAlign = False,
      alignMode = Center, readOrder = RowMajor,
      crop = \<lparr>top_px = 0, bottom_px = 0, left_px = 0, right_px = 0\<rparr>,
      maxResolution1024 = False\<rparr>"

definition sheet2000 :: ImageDimensions where
  "sheet2000 = \<lparr>width = 2000, height = 1000\<rparr>"

definition single :: SpriteConfig where
  "single =
     \<lparr>rows = 1, cols = 1, totalFrames = 1, excludedFrames = [], fps = 10, scale = 1,
      transparent = None, tolerance = 10, useFloodFill = True, autoAlign = False,
      alignMode = Center, readOrder = RowMajor,
      crop = \<lparr>top_px = 0, bottom_px = 0, left_px = 0, right_px = 0\<rparr>,
      maxResolution1024 = True\<rparr>"



section \<open>Pixels, reachability and background in the words of the specification\<close>

text \<open>
  The words of the specification for the flood fill: a pixel is converted when it is
  reachable from a matching pixel of the border through a chain of matching pixels, each
  the north, south, east or west neighbour of the one before. \<open>T\<close> says which pixels
  \<open>(x, y)\<close> match.
\<close>

definition inGrid :: "nat \<Rightarrow> nat \<Rightarrow> int \<times> int \<Rightarrow> bool" where
  "inGrid w h p = (0 \<le> fst p \<and> fst p < int w \<and> 0 \<le> snd p \<and> snd p < int h)"

definition onBorder :: "nat \<Rightarrow> nat \<Rightarrow> int \<times> int \<Rightarrow> bool" where
  "onBorder w h p =
     (inGrid w h p \<and> (fst p = 0 \<or> fst p = int w - 1 \<or> snd p = 0 \<or> snd p = int h - 1))"

definition neighbours :: "int \<times> int \<Rightarrow> (int \<times> int) list" where
  "neighbours p = [(fst p + 1, snd p), (fst p - 1, snd p), (fst p, snd p + 1), (fst p, snd p - 1)]"

inductive reachable :: "nat \<Rightarrow> nat \<Rightarrow> (int \<times> int \<Rightarrow> bool) \<Rightarrow> int \<times> int \<Rightarrow> bool"
  for w h T where
    seed: "onBorder w h p \<Longrightarrow> T p \<Longrightarrow> reachable w h T p"
  | grow: "reachable w h T p \<Longrightarrow> q \<in> set (neighbours p) \<Longrightarrow> inGrid w h q \<Longrightarrow> T q
           \<Longrightarrow> reachable w h T q"

text \<open>
  The four bytes read at a byte offset, and the pixel \<open>(x, y)\<close> of a bitmap \<open>w\<close>
  pixels wide.
\<close>

definition quad :: "byte list \<Rightarrow> int \<Rightarrow> int option list" where
  "quad data idx = [rdb data idx, rdb data (idx + 1), rdb data (idx + 2), rdb data (idx + 3)]"

definition pixelAt :: "nat \<Rightarrow> byte list \<Rightarrow> int \<times> int \<Rightarrow> int option list" where
  "pixelAt w data p = quad data ((snd p * int w + fst p) * 4)"

definition keyPixel :: "RGB \<Rightarrow> int option list" where
  "keyPixel k =
     [Some (uint (clamp8 (red k))), Some (uint (clamp8 (green k))),
      Some (uint (clamp8 (blue k))), Some 255]"

definition matchesAt :: "RGB \<Rightarrow> real \<Rightarrow> nat \<Rightarrow> byte list \<Rightarrow> int \<times> int \<Rightarrow> bool" where
  "matchesAt targetRGB thr w data p = matches targetRGB thr data ((snd p * int w + fst p) * 4)"

text \<open>
  The words of the specification for the analyzer: a pixel \<open>[r, g, b, a]\<close> is background
  when its alpha is 0, or when a target colour is configured and the pixel is within the
  threshold of it; anything else is content.
\<close>

definition isBackground :: "RGB option \<Rightarrow> real \<Rightarrow> int option list \<Rightarrow> bool" where
  "isBackground target thr px =
     (px ! 3 = Some 0
      \<or> (case target of
            None \<Rightarrow> False
          | Some t \<Rightarrow> (case distSq (px ! 0) (px ! 1) (px ! 2) t of
                         None \<Rightarrow> False
                       | Some d \<Rightarrow> real_of_int d \<le> thr)))"

definition contentAt :: "RGB option \<Rightarrow> real \<Rightarrow> nat \<Rightarrow> byte list \<Rightarrow> int \<times> int \<Rightarrow> bool" where
  "contentAt target thr w data p = isContent target thr data ((snd p * int w + fst p) * 4)"

text \<open>
  The state of the analyzer's scan after the pixels \<open>S\<close>: untouched while no pixel of
  \<open>S\<close> is content, and otherwise the tightest bounds of the content pixels of \<open>S\<close>.
\<close>

definition scanned :: "(int \<times> int \<Rightarrow> bool) \<Rightarrow> nat \<Rightarrow> nat \<Rightarrow> (int \<times> int) set \<Rightarrow> scan \<Rightarrow> bool" where
  "scanned C w h S s =
     (if \<exists>p\<in>S. C p
      then found s
           \<and> (\<forall>p\<in>S. C p \<longrightarrow> sMinX s \<le> fst p \<and> fst p \<le> sMaxX s
                                \<and> sMinY s \<le> snd p \<and> snd p \<le> sMaxY s)
           \<and> (\<exists>p\<in>S. C p \<and> fst p = sMinX s) \<and> (\<exists>p\<in>S. C p \<and> fst p = sMaxX s)
           \<and> (\<exists>p\<in>S. C p \<and> snd p = sMinY s) \<and> (\<exists>p\<in>S. C p \<and> snd p = sMaxY s)
      else s = \<lparr>sMinX = int w, sMinY = int h, sMaxX = 0, sMaxY = 0, found = False\<rparr>)"

section \<open>Invariants of the flood fill\<close>

text \<open>
  What \<^verbatim>\<open>addSeed\<close> and the neighbour loop both do with a pixel index \<open>v\<close> that is
  inside the bitmap: nothing if it is marked visited; otherwise the match test, and on
  success the mark and the push.
\<close>

definition probe :: "(byte list \<Rightarrow> int \<Rightarrow> bool) \<Rightarrow> int \<Rightarrow> flood \<Rightarrow> flood" where
  "probe M v st =
     (if truthy (rdb (visited st) v) then st
      else if M (fdata st) (v * 4)
           then st\<lparr>visited := wrb (visited st) v 1, queue := queue st @ [v],
                   touched := touched st @ [v * 4]\<rparr>
           else st\<lparr>touched := touched st @ [v * 4]\<rparr>)"

text \<open>
  The invariant that bounds the run: \<^verbatim>\<open>visited\<close> has \<open>w * h\<close> entries, the queue holds
  distinct pixel indices below \<open>w * h\<close>, exactly the marked ones, and every access
  recorded is the offset of such a pixel.
\<close>

definition floodInv :: "nat \<Rightarrow> nat \<Rightarrow> flood \<Rightarrow> bool" where
  "floodInv w h st =
     (length (visited st) = w * h
      \<and> head st \<le> length (queue st)
      \<and> distinct (queue st)
      \<and> (\<forall>v\<in>set (queue st). 0 \<le> v \<and> v < int (w * h) \<and> truthy (rdb (visited st) v))
      \<and> (\<forall>v. 0 \<le> v \<and> v < int (w * h) \<and> truthy (rdb (visited st) v) \<longrightarrow> v \<in> set (queue st))
      \<and> (\<forall>i\<in>set (touched st). \<exists>v. i = v * 4 \<and> 0 \<le> v \<and> v < int (w * h)))"

text \<open>The pixel with the index \<open>v\<close>, and the index of the pixel \<open>p\<close>.\<close>

definition coords :: "nat \<Rightarrow> int \<Rightarrow> int \<times> int" where
  "coords w v = (v mod int w, v div int w)"

definition indexOf :: "nat \<Rightarrow> int \<times> int \<Rightarrow> int" where
  "indexOf w p = snd p * int w + fst p"

text \<open>
  The invariant of the export path's flood fill on the bitmap \<open>data0\<close>: the pixels
  dequeued so far hold the key colour and all others are untouched, and every queued
  pixel is reachable in the sense of the specification.
\<close>

definition keyInv :: "RGB \<Rightarrow> real \<Rightarrow> RGB \<Rightarrow> nat \<Rightarrow> nat \<Rightarrow> byte list \<Rightarrow> flood \<Rightarrow> bool" where
  "keyInv t thr k w h data0 st =
     (floodInv w h st
      \<and> length (fdata st) = length data0
      \<and> (\<forall>v. 0 \<le> v \<and> v < int (w * h) \<longrightarrow>
             quad (fdata st) (v * 4)
             = (if v \<in> set (take (head st) (queue st)) then keyPixel k else quad data0 (v * 4)))
      \<and> (\<forall>v\<in>set (queue st). reachable w h (matchesAt t thr w data0) (coords w v)))"

text \<open>
  Every matching border pixel is queued; and the matching neighbours of every dequeued
  pixel are queued.
\<close>

definition seeded :: "nat \<Rightarrow> nat \<Rightarrow> (int \<times> int \<Rightarrow> bool) \<Rightarrow> flood \<Rightarrow> bool" where
  "seeded w h T st = (\<forall>p. onBorder w h p \<and> T p \<longrightarrow> indexOf w p \<in> set (queue st))"

definition closedUpTo :: "nat \<Rightarrow> nat \<Rightarrow> (int \<times> int \<Rightarrow> bool) \<Rightarrow> flood \<Rightarrow> bool" where
  "closedUpTo w h T st =
     (\<forall>u\<in>set (take (head st) (queue st)). \<forall>q\<in>set (neighbours (coords w u)).
        inGrid w h q \<and> T q \<longrightarrow> indexOf w q \<in> set (queue st))"

definition keyLoopInv :: "RGB \<Rightarrow> real \<Rightarrow> RGB \<Rightarrow> nat \<Rightarrow> nat \<Rightarrow> byte list \<Rightarrow> flood \<Rightarrow> bool" where
  "keyLoopInv t thr k w h data0 st =
     (keyInv t thr k w h data0 st
      \<and> seeded w h (matchesAt t thr w data0) st
      \<and> closedUpTo w h (matchesAt t thr w data0) st)"

text \<open>Concrete bitmaps and colours.\<close>

definition blank1 :: "byte list" where
  "blank1 = [10, 20, 30, 0]"

definition dot6 :: "byte list" where
  "dot6 = replicate 140 0 @ [255, 0, 0, 255]"

definition magenta :: RGB where
  "magenta = \<lparr>red = 255, green = 0, blue = 255\<rparr>"

definition white :: RGB where
  "white = \<lparr>red = 255, green = 255, blue = 255\<rparr>"

definition ring4 :: "byte list" where
  "ring4 =
     [255, 255, 255, 255,  255, 255, 255, 255,  255, 255, 255, 255,  255, 255, 255, 255,
      255, 255, 255, 255,  0, 0, 0, 255,        0, 0, 0, 255,        0, 0, 0, 255,
      255, 255, 255, 255,  0, 0, 0, 255,        255, 255, 255, 255,  0, 0, 0, 255,
      255, 255, 255, 255,  0, 0, 0, 255,        0, 0, 0, 255,        0, 0, 0, 255]"

section \<open>Rounding to doubles\<close>

text \<open>
  The exponent of a number between two powers of 2, the double nearest to a number
  whose exponent is known, and the integers below \<open>2 ^ 53\<close>, which are doubles.
\<close>

lemma expo_eq:
  assumes "2 powi e \<le> \<bar>x\<bar>" and "\<bar>x\<bar> < 2 powi (e + 1)"
  shows "expo x = e"
proof -
  have pos: "0 < \<bar>x\<bar>" using assms(1) by (smt (verit) zero_less_power_int)
  have p: "(2::real) powi k = 2 powr real_of_int k" for k
    by (simp add: powr_real_of_int')
  have "real_of_int e \<le> log 2 \<bar>x\<bar>"
    using assms(1) pos by (simp add: p le_log_iff)
  moreover have "log 2 \<bar>x\<bar> < real_of_int e + 1"
    using assms(2) pos by (simp add: p log_less_iff add.commute)
  ultimately show ?thesis unfolding expo_def by linarith
qed

lemma roundHalfEven_of_int [simp]: "roundHalfEven (real_of_int k) = k"
  by (simp add: roundHalfEven_def)

lemma dbl_eval:
  assumes "2 powi e \<le> \<bar>x\<bar>" and "\<bar>x\<bar> < 2 powi (e + 1)" and "- 1022 \<le> e"
    and "roundHalfEven (x * 2 powi (52 - e)) = m"
  shows "dbl x = real_of_int m * 2 powi (e - 52)"
proof -
  have e: "expo x = e" using assms(1,2) by (rule expo_eq)
  have nz: "x \<noteq> 0" using assms(1) by (smt (verit) zero_less_power_int)
  have u: "ulp x = 2 powi (e - 52)" using assms(3) by (simp add: ulp_def e max_def)
  have "x / ulp x = x * 2 powi (52 - e)"
    unfolding u by (simp add: power_int_diff field_simps)
  then show ?thesis using nz assms(4) by (simp add: dbl_def u)
qed

lemma dbl_of_int:
  assumes "\<bar>n\<bar> < 2 ^ 53"
  shows "dbl (real_of_int n) = real_of_int n"
proof (cases "n = 0")
  case True
  then show ?thesis by (simp add: dbl_def)
next
  case False
  let ?x = "real_of_int n"
  let ?e = "expo ?x"
  have one: "1 \<le> \<bar>?x\<bar>" using False by (simp flip: of_int_abs)
  have lt: "\<bar>?x\<bar> < 2 ^ 53" using assms by (simp flip: of_int_abs)
  have "0 \<le> log 2 \<bar>?x\<bar>" using one by simp
  then have e0: "0 \<le> ?e" by (simp add: expo_def)
  have "log 2 \<bar>?x\<bar> < 53"
    using lt one by (simp add: log_less_iff powr_realpow [symmetric])
  then have e1: "?e \<le> 52" unfolding expo_def by linarith
  obtain k where k: "k = nat (52 - ?e)" by simp
  have u: "ulp ?x = 1 / 2 ^ k"
    using e0 e1 by (simp add: ulp_def max_def k power_int_def field_simps)
  have "?x / ulp ?x = real_of_int (n * 2 ^ k)" by (simp add: u)
  then have "roundHalfEven (?x / ulp ?x) = n * 2 ^ k" by (simp only: roundHalfEven_of_int)
  then show ?thesis using False by (simp add: dbl_def u)
qed

lemma dbl_numeral [simp]:
  "numeral k < (2::int) ^ 53 \<Longrightarrow> dbl (numeral k) = numeral k"
  using dbl_of_int [of "numeral k"] by simp

lemma dbl_neg_numeral [simp]:
  "numeral k < (2::int) ^ 53 \<Longrightarrow> dbl (- numeral k) = - numeral k"
  using dbl_of_int [of "- numeral k"] by simp

lemma dbl_zero [simp]: "dbl 0 = 0"
  by (simp add: dbl_def)

lemma dbl_one [simp]: "dbl 1 = 1"
  using dbl_of_int [of 1] by simp

lemma dbl_small:
  assumes "e \<le> 52" and "- 1022 \<le> e"
    and "2 powi e \<le> \<bar>x\<bar>" and "\<bar>x\<bar> < 2 powi (e + 1)"
    and "roundHalfEven (x * 2 ^ nat (52 - e)) = m"
  shows "dbl x = real_of_int m / 2 ^ nat (52 - e)"
proof -
  have a: "(2::real) powi (52 - e) = 2 ^ nat (52 - e)"
    using assms(1) by (simp add: power_int_def)
  have b: "(2::real) powi (e - 52) = 1 / 2 ^ nat (52 - e)"
    using assms(1) by (cases "e = 52") (simp_all add: power_int_def field_simps)
  from dbl_eval [OF assms(3,4,2), of m] assms(5) show ?thesis
    by (simp add: a b)
qed

section \<open>The traversals enumerate the indices in ascending order\<close>

lemma grid_indices_ascending:
  "concat (map (\<lambda>a. map (\<lambda>b. a * n + b) [0..<n]) [0..<m]) = [0..<m * n]"
proof (induction m)
  case 0
  show ?case by simp
next
  case (Suc m)
  have "map (\<lambda>b. m * n + b) [0..<n] = [m * n..<m * n + n]"
    using map_add_upt [of "m * n" n] by (simp add: add.commute)
  moreover have "[0..<m * n] @ [m * n..<m * n + n] = [0..<m * n + n]"
    using upt_add_eq_append [of 0 "m * n" n] by simp
  ultimately show ?case using Suc by (simp add: add.commute)
qed

lemma tempCoords_indices:
  "map originalIndex (tempCoords ro nrows ncols) = map int [0..<nrows * ncols]"
proof (cases "ro = ColumnMajor")
  case True
  have "map originalIndex (tempCoords ro nrows ncols)
        = map int (concat (map (\<lambda>c. map (\<lambda>r. c * nrows + r) [0..<nrows]) [0..<ncols]))"
    using True by (simp add: tempCoords_def map_concat comp_def)
  then show ?thesis
    by (simp add: grid_indices_ascending mult.commute)
next
  case False
  have "map originalIndex (tempCoords ro nrows ncols)
        = map int (concat (map (\<lambda>r. map (\<lambda>c. r * ncols + c) [0..<ncols]) [0..<nrows]))"
    using False by (simp add: tempCoords_def map_concat comp_def)
  then show ?thesis
    by (simp add: grid_indices_ascending)
qed

lemma valid_indices:
  "map originalIndex (validFrameCoordinates ro nrows ncols nframes excluded)
   = filter (\<lambda>i. i < nframes \<and> i \<notin> set excluded) (map int [0..<nrows * ncols])"
proof -
  have "map originalIndex (validFrameCoordinates ro nrows ncols nframes excluded)
        = filter (\<lambda>i. i < nframes \<and> i \<notin> set excluded)
                 (map originalIndex (tempCoords ro nrows ncols))"
    by (simp add: validFrameCoordinates_def filter_map comp_def)
  then show ?thesis by (simp add: tempCoords_indices)
qed

lemma concat_if_singleton:
  "concat (map (\<lambda>x. if P (f x) then [f x] else []) xs) = filter P (map f xs)"
  by (induction xs) simp_all

lemma getValidFrameIndices_eq:
  "getValidFrameIndices config
   = map originalIndex (validFrameCoordinates (readOrder config) (rows config) (cols config)
                          (totalFrames config) (excludedFrames config))"
proof -
  let ?P = "\<lambda>i. i < totalFrames config \<and> i \<notin> set (excludedFrames config)"
  have inner: "concat (map (\<lambda>y. let i = int (g y) in if ?P i then [i] else []) ys)
                  = filter ?P (map (\<lambda>y. int (g y)) ys)" for g :: "nat \<Rightarrow> nat" and ys
    unfolding Let_def by (rule concat_if_singleton [where P = ?P and f = "\<lambda>y. int (g y)"])
  have outer: "map originalIndex (filter (\<lambda>item. ?P (originalIndex item))
                  (concat (map (\<lambda>a. map (\<lambda>b. \<lparr>fr = p a b, fc = q a b, originalIndex = int (g a b)\<rparr>) ys) xs)))
               = concat (map (\<lambda>a. filter ?P (map (\<lambda>b. int (g a b)) ys)) xs)"
    for p q g :: "nat \<Rightarrow> nat \<Rightarrow> nat" and xs ys
    by (induction xs) (simp_all add: filter_map comp_def)
  show ?thesis
  proof (cases "readOrder config = ColumnMajor")
    case True
    have "getValidFrameIndices config
          = concat (map (\<lambda>c. filter ?P (map (\<lambda>r. int (c * rows config + r)) [0..<rows config]))
                     [0..<cols config])"
      using True unfolding getValidFrameIndices_def inner by simp
    also have "\<dots> = map originalIndex (filter (\<lambda>item. ?P (originalIndex item))
                  (concat (map (\<lambda>c. map (\<lambda>r. \<lparr>fr = r, fc = c,
                     originalIndex = int (c * rows config + r)\<rparr>) [0..<rows config]) [0..<cols config])))"
      by (rule outer [of "\<lambda>c r. r" "\<lambda>c r. c" "\<lambda>c r. c * rows config + r", symmetric])
    finally show ?thesis
      using True unfolding validFrameCoordinates_def tempCoords_def by simp
  next
    case False
    have "getValidFrameIndices config
          = concat (map (\<lambda>r. filter ?P (map (\<lambda>c. int (r * cols config + c)) [0..<cols config]))
                     [0..<rows config])"
      using False unfolding getValidFrameIndices_def inner by simp
    also have "\<dots> = map originalIndex (filter (\<lambda>item. ?P (originalIndex item))
                  (concat (map (\<lambda>r. map (\<lambda>c. \<lparr>fr = r, fc = c,
                     originalIndex = int (r * cols config + c)\<rparr>) [0..<cols config]) [0..<rows config])))"
      by (rule outer [of "\<lambda>r c. r" "\<lambda>r c. c" "\<lambda>r c. r * cols config + c", symmetric])
    finally show ?thesis
      using False unfolding validFrameCoordinates_def tempCoords_def by simp
  qed
qed

lemma valid_indices_ascending:
  "sorted_wrt (<) (map originalIndex (validFrameCoordinates ro nrows ncols nframes excluded))"
proof -
  have "sorted_wrt (<) (map int [0..<nrows * ncols])"
    by (simp add: sorted_wrt_map)
  then show ?thesis
    unfolding valid_indices by (rule sorted_wrt_filter)
qed



section \<open>Claims about the frame sequencer\<close>

text \<open>
  C1 (as amended). With no exclusions and every cell counted, both traversals emit the
  indices \<open>0, 1, \<dots>, rows * cols - 1\<close> in ascending order. On the grid of 2 rows and
  3 columns the row-major traversal emits \<open>[0,1,2,3,4,5]\<close>, and the column-major
  traversal emits \<open>[0,1,2,3,4,5]\<close> as well, visiting the cells (row, column) in the
  order (0,0), (1,0), (0,1), (1,1), (0,2), (1,2); the column-major index of the cell
  \<open>(r, c)\<close> is \<open>c * rows + r\<close>.
\<close>

theorem C1_traversal_orders:
  "map originalIndex (validFrameCoordinates ro nrows ncols (int (nrows * ncols)) [])
     = map int [0..<nrows * ncols]
   \<and> map originalIndex (validFrameCoordinates RowMajor 2 3 6 []) = [0, 1, 2, 3, 4, 5]
   \<and> map originalIndex (validFrameCoordinates ColumnMajor 2 3 6 []) = [0, 1, 2, 3, 4, 5]
   \<and> map (\<lambda>f. (fr f, fc f)) (validFrameCoordinates ColumnMajor 2 3 6 [])
       = [(0, 0), (1, 0), (0, 1), (1, 1), (0, 2), (1, 2)]
   \<and> list_all (\<lambda>f. originalIndex f = int (fc f * nrows + fr f)) (tempCoords ColumnMajor nrows ncols)
   \<and> list_all (\<lambda>f. originalIndex f = int (fr f * ncols + fc f)) (tempCoords RowMajor nrows ncols)"
proof -
  have general: "map originalIndex (validFrameCoordinates ro nrows ncols (int (nrows * ncols)) [])
     = map int [0..<nrows * ncols]"
  proof -
    have "\<forall>x \<in> set [0..<nrows * ncols]. int x < int (nrows * ncols)"
      by (simp del: of_nat_mult)
    then have "filter (\<lambda>x. int x < int (nrows * ncols)) [0..<nrows * ncols] = [0..<nrows * ncols]"
      by (rule filter_True)
    then show ?thesis
      unfolding valid_indices by (simp add: filter_map comp_def del: of_nat_mult)
  qed
  have six: "[0..<6] = [0, 1, 2, 3, 4, 5]" by (simp add: upt_rec)
  have rowm: "map originalIndex (validFrameCoordinates RowMajor 2 3 6 []) = [0, 1, 2, 3, 4, 5]"
    using valid_indices [of RowMajor 2 3 6 "[]"] by (simp add: six)
  have colm: "map originalIndex (validFrameCoordinates ColumnMajor 2 3 6 []) = [0, 1, 2, 3, 4, 5]"
    using valid_indices [of ColumnMajor 2 3 6 "[]"] by (simp add: six)
  have cells: "map (\<lambda>f. (fr f, fc f)) (validFrameCoordinates ColumnMajor 2 3 6 [])
       = [(0, 0), (1, 0), (0, 1), (1, 1), (0, 2), (1, 2)]"
    by (simp add: validFrameCoordinates_def tempCoords_def upt_rec)
  have cform: "list_all (\<lambda>f. originalIndex f = int (fc f * nrows + fr f))
                 (tempCoords ColumnMajor nrows ncols)"
    by (simp add: tempCoords_def list_all_iff)
  have rform: "list_all (\<lambda>f. originalIndex f = int (fr f * ncols + fc f))
                 (tempCoords RowMajor nrows ncols)"
    by (simp add: tempCoords_def list_all_iff)
  from general rowm colm cells cform rform show ?thesis by blast
qed

text \<open>
  C1 (as stated) fails: the column-major traversal of the grid of 2 rows and 3 columns
  does not emit \<open>[0,3,1,4,2,5]\<close>.
\<close>

theorem C1_column_major_counterexample:
  "map originalIndex (validFrameCoordinates ColumnMajor 2 3 6 []) \<noteq> [0, 3, 1, 4, 2, 5]"
  by (simp add: validFrameCoordinates_def tempCoords_def upt_rec)

text \<open>
  C9. For every configuration, under both read orders, the original indices that the
  sequencer emits are strictly increasing, and so is the list of frame indices of the
  preview player.
\<close>

theorem C9_indices_strictly_increasing:
  "sorted_wrt (<) (map originalIndex
      (validFrameCoordinates (readOrder config) (rows config) (cols config)
         (totalFrames config) (excludedFrames config)))
   \<and> sorted_wrt (<) (getValidFrameIndices config)"
  unfolding getValidFrameIndices_eq by (simp only: valid_indices_ascending)

section \<open>Properties of the export pipeline\<close>

lemma outputCalls_one_frame:
  "length (filter isAddFrame (outputCalls browser config dimensions frames)) = 1"
  by (simp add: outputCalls_def isAddFrame_def Let_def)

lemma renderFrame_one_frame:
  "length (filter isAddFrame (renderFrame browser config dimensions frames f)) = 1"
  by (simp add: renderFrame_def drawCalls_def keyCalls_def outputCalls_one_frame Let_def isAddFrame_def
      split: option.split)

lemma count_concat_frames:
  "length (filter isAddFrame (concat (map (renderFrame browser config dimensions frames) fs)))
   = length fs"
  by (induction fs) (simp_all add: renderFrame_one_frame)

lemma analysisCalls_no_frame: "filter isAddFrame (analysisCalls config dimensions f) = []"
  by (simp add: analysisCalls_def isAddFrame_def)

lemma analysis_concat_no_frame:
  "filter isAddFrame (concat (map (analysisCalls config dimensions) fs)) = []"
  by (induction fs) (simp_all add: analysisCalls_no_frame)

lemma setupCalls_no_frame:
  "filter isAddFrame (setupCalls browser config dimensions frames) = []"
  by (simp add: setupCalls_def Let_def analysis_concat_no_frame isAddFrame_def)

lemma resizeCalls_no_frame:
  "filter isAddFrame (resizeCalls browser config dimensions frames) = []"
  by (simp add: resizeCalls_def isAddFrame_def)

lemma generateGif_frames:
  assumes "0 < cropWidth config dimensions" "0 < cropHeight config dimensions"
    and "bufferCtx browser"
    and "validFrameCoordinates (readOrder config) (rows config) (cols config)
           (totalFrames config) (excludedFrames config) = frames"
    and "frames \<noteq> []"
  shows "length (filter isAddFrame (fst (generateGif browser config dimensions))) = length frames"
    and "snd (generateGif browser config dimensions) = None"
    and "fst (generateGif browser config dimensions)
         = setupCalls browser config dimensions frames
           @ resizeCalls browser config dimensions frames
           @ concat (map (renderFrame browser config dimensions frames) frames)
           @ [GifRender]"
  using assms
  by (simp_all add: generateGif_def Let_def count_concat_frames setupCalls_no_frame
      resizeCalls_no_frame isAddFrame_def)








section \<open>Claims about the export pipeline\<close>




text \<open>
  C8. With \<open>rows > 0\<close> and \<open>cols > 0\<close>, if the cell width minus the left and right
  margins, or the cell height minus the top and bottom margins, as the code computes them
  (\<^verbatim>\<open>dimensions.width / cols - crop.left - crop.right\<close>, in doubles), is not positive,
  the pipeline rejects with the invalid-crop error and has made no call at all: nothing
  was drawn and no frame was submitted.
\<close>

theorem C8_invalid_crop_rejected:
  assumes "0 < rows config" and "0 < cols config"
    and "fsub (fsub (fdiv (width dimensions) (real (cols config))) (left_px (crop config)))
              (right_px (crop config)) \<le> 0
         \<or> fsub (fsub (fdiv (height dimensions) (real (rows config))) (top_px (crop config)))
                (bottom_px (crop config)) \<le> 0"
  shows "generateGif browser config dimensions = ([], Some InvalidCropError)"
  using assms(3)
  by (simp add: generateGif_def cropWidth_def cropHeight_def frameWidthRaw_def frameHeightRaw_def)

text \<open>C8 at a cell 64 pixels wide with margins of 40 pixels left and right.\<close>

theorem C8_invalid_crop_rejected_witness:
  "fsub (fsub (fdiv (width sheet64) (real (cols overcropped))) (left_px (crop overcropped)))
        (right_px (crop overcropped)) = - 16
   \<and> generateGif plainBrowser overcropped sheet64 = ([], Some InvalidCropError)"
proof -
  have r: "0 < rows overcropped" and c: "0 < cols overcropped"
    by (simp_all add: overcropped_def)
  have val: "fsub (fsub (fdiv (width sheet64) (real (cols overcropped)))
                        (left_px (crop overcropped)))
                  (right_px (crop overcropped)) = - 16"
    by (simp add: overcropped_def sheet64_def fdiv_def fsub_def)
  then have bad: "fsub (fsub (fdiv (width sheet64) (real (cols overcropped)))
                        (left_px (crop overcropped)))
                  (right_px (crop overcropped)) \<le> 0"
    by simp
  from C8_invalid_crop_rejected [OF r c disjI1 [OF bad]] val show ?thesis by simp
qed

text \<open>
  The guard tests the width as computed. With a sheet 64 pixels wide, 5 columns, a left
  margin of 12 and a right margin of the double nearest to 0.8, the quotient is rounded
  up to the double nearest to 12.8, the two subtractions are exact, and the width is
  \<open>3 / 2 ^ 52\<close>: positive, so the run is not rejected, although in exact arithmetic the
  width from the same inputs is negative.
\<close>

lemma thinCrop_width:
  "cropWidth thinCrop sheet64 = 3 / 2 ^ 52"
proof -
  have q: "fdiv 64 5 = 7205759403792794 / 2 ^ 49"
    unfolding fdiv_def
    using dbl_small [of 3 "64 / 5" 7205759403792794]
    by (simp add: power_int_def roundHalfEven_def)
  have s1: "fsub (7205759403792794 / 2 ^ 49) 12 = 7205759403792800 / 2 ^ 53"
    unfolding fsub_def
    using dbl_small [of "- 1" "7205759403792794 / 2 ^ 49 - 12" 7205759403792800]
    by (simp add: power_int_def roundHalfEven_def)
  have s2: "fsub (7205759403792800 / 2 ^ 53) (3602879701896397 / 2 ^ 52) = 3 / 2 ^ 52"
    unfolding fsub_def
    using dbl_small [of "- 51" "7205759403792800 / 2 ^ 53 - 3602879701896397 / 2 ^ 52"
        6755399441055744]
    by (simp add: power_int_def roundHalfEven_def power_divide)
  have w0: "cropWidth thinCrop sheet64
            = fsub (fsub (fdiv 64 5) 12) (3602879701896397 / 2 ^ 52)"
    by (simp add: cropWidth_def frameWidthRaw_def thinCrop_def sheet64_def)
  show ?thesis
    unfolding w0 q s1 s2 by simp
qed

lemma thinCrop_passes_guard:
  "width sheet64 / real (cols thinCrop) - left_px (crop thinCrop) - right_px (crop thinCrop) < 0
   \<and> 0 < cropWidth thinCrop sheet64
   \<and> snd (generateGif plainBrowser thinCrop sheet64) = None"
proof -
  have exact: "width sheet64 / real (cols thinCrop) - left_px (crop thinCrop)
               - right_px (crop thinCrop) < 0"
    by (simp add: thinCrop_def sheet64_def)
  have w: "0 < cropWidth thinCrop sheet64" by (simp add: thinCrop_width)
  have h: "0 < cropHeight thinCrop sheet64"
    by (simp add: cropHeight_def frameHeightRaw_def thinCrop_def sheet64_def fdiv_def fsub_def)
  have frames: "validFrameCoordinates (readOrder thinCrop) (rows thinCrop) (cols thinCrop)
                  (totalFrames thinCrop) (excludedFrames thinCrop)
                = validFrameCoordinates RowMajor 1 5 5 []"
    by (simp add: thinCrop_def)
  have ne: "validFrameCoordinates RowMajor 1 5 5 [] \<noteq> []"
    by (simp add: validFrameCoordinates_def tempCoords_def upt_rec)
  have ctx: "bufferCtx plainBrowser" by (simp add: plainBrowser_def)
  from generateGif_frames(2) [OF w h ctx frames ne] exact w show ?thesis by simp
qed

text \<open>
  C5. With the limit of 1024 pixels enabled, a logical canvas of 2000 by 1000 gives the
  resize ratio 0.512 (the double written so, \<open>4611686018427388 / 2 ^ 53\<close>) and the
  output size 1024 by 512, each side the floor of the logical side times the ratio; a
  logical canvas of 800 by 600 gives the ratio 1 and is left unchanged. In general the
  ratio is 1024 divided by the larger logical side when that side exceeds 1024, and 1
  otherwise, and each output side is the floor of the logical side times the ratio, all
  in the arithmetic of doubles. A run of the pipeline on a sheet of 2000 by 1000 pixels
  creates the encoder with the size 1024 by 512.
\<close>

theorem C5_output_size:
  "outputSize True 2000 1000 = (1024, 512, dbl 0.512)
   \<and> dbl 0.512 = 4611686018427388 / 2 ^ 53
   \<and> outputSize True 800 600 = (800, 600, 1)
   \<and> snd (snd (outputSize True lw lh))
       = (if max lw lh > 1024 then fdiv 1024 (real_of_int (max lw lh)) else 1)
   \<and> fst (outputSize True lw lh)
       = (if max lw lh > 1024
          then \<lfloor>fmul (real_of_int lw) (fdiv 1024 (real_of_int (max lw lh)))\<rfloor> else lw)
   \<and> fst (snd (outputSize True lw lh))
       = (if max lw lh > 1024
          then \<lfloor>fmul (real_of_int lh) (fdiv 1024 (real_of_int (max lw lh)))\<rfloor> else lh)
   \<and> filter isAddFrame (fst (generateGif plainBrowser single sheet2000))
       = [AddFrame OutputCanvas 100]
   \<and> NewGIF 1024 512 None \<in> set (fst (generateGif plainBrowser single sheet2000))"
proof -
  have d: "dbl 0.512 = 4611686018427388 / 2 ^ 53"
    using dbl_small [of "- 1" "0.512" 4611686018427388]
    by (simp add: power_int_def roundHalfEven_def)
  have r: "fdiv 1024 2000 = 4611686018427388 / 2 ^ 53"
    unfolding fdiv_def
    using dbl_small [of "- 1" "1024 / 2000" 4611686018427388]
    by (simp add: power_int_def roundHalfEven_def)
  have pw: "fmul 2000 (4611686018427388 / 2 ^ 53) = 1024"
    unfolding fmul_def
    using dbl_small [of 10 "2000 * (4611686018427388 / 2 ^ 53)" 4503599627370496]
    by (simp add: power_int_def roundHalfEven_def)
  have ph: "fmul 1000 (4611686018427388 / 2 ^ 53) = 512"
    unfolding fmul_def
    using dbl_small [of 9 "1000 * (4611686018427388 / 2 ^ 53)" 4503599627370496]
    by (simp add: power_int_def roundHalfEven_def)
  have a0: "outputSize True 2000 1000
            = (\<lfloor>fmul 2000 (fdiv 1024 2000)\<rfloor>, \<lfloor>fmul 1000 (fdiv 1024 2000)\<rfloor>, fdiv 1024 2000)"
    by (simp add: outputSize_def Let_def)
  have a: "outputSize True 2000 1000 = (1024, 512, dbl 0.512)"
    unfolding a0 r pw ph d by simp
  have b: "outputSize True 800 600 = (800, 600, 1)"
    by (simp add: outputSize_def Let_def)
  have c: "snd (snd (outputSize True lw lh))
       = (if max lw lh > 1024 then fdiv 1024 (real_of_int (max lw lh)) else 1)"
    by (simp add: outputSize_def Let_def)
  have e: "fst (outputSize True lw lh)
       = (if max lw lh > 1024
          then \<lfloor>fmul (real_of_int lw) (fdiv 1024 (real_of_int (max lw lh)))\<rfloor> else lw)"
    by (simp add: outputSize_def Let_def)
  have f: "fst (snd (outputSize True lw lh))
       = (if max lw lh > 1024
          then \<lfloor>fmul (real_of_int lh) (fdiv 1024 (real_of_int (max lw lh)))\<rfloor> else lh)"
    by (simp add: outputSize_def Let_def)
  have lw: "logicalWidth plainBrowser single sheet2000 fs = 2000" for fs
    by (simp add: logicalWidth_def finalSize_def single_def sheet2000_def cropWidth_def
        frameWidthRaw_def fdiv_def fsub_def fmul_def)
  have lh: "logicalHeight plainBrowser single sheet2000 fs = 1000" for fs
    by (simp add: logicalHeight_def finalSize_def single_def sheet2000_def cropHeight_def
        frameHeightRaw_def fdiv_def fsub_def fmul_def)
  have mr: "maxResolution1024 single" by (simp add: single_def)
  have ow: "outputWidth plainBrowser single sheet2000 fs = 1024" for fs
    by (simp add: outputWidth_def lw lh mr a)
  have oh: "outputHeight plainBrowser single sheet2000 fs = 512" for fs
    by (simp add: outputHeight_def lw lh mr a)
  have a1: "outputSize True 2000 1000 = (1024, 512, 4611686018427388 / 2 ^ 53)"
    unfolding a0 r pw ph by simp
  have rr: "resizeRatio plainBrowser single sheet2000 fs = 4611686018427388 / 2 ^ 53" for fs
    by (simp add: resizeRatio_def lw lh mr a1)
  have cw: "cropWidth single sheet2000 = 2000" "cropHeight single sheet2000 = 1000"
    "frameWidthRaw single sheet2000 = 2000" "frameHeightRaw single sheet2000 = 1000"
    by (simp_all add: cropWidth_def cropHeight_def frameWidthRaw_def frameHeightRaw_def
        single_def sheet2000_def fdiv_def fsub_def)
  have run: "fst (generateGif plainBrowser single sheet2000)
     = [CreateCanvas AnalysisCanvas 2000 1000, NewGIF 1024 512 None,
        CreateCanvas BufferCanvas 2000 1000, CreateCanvas OutputCanvas 1024 512,
        ClearRect BufferCanvas 2000 1000, FillWhite BufferCanvas 2000 1000,
        DrawImage BufferCanvas 0 0 2000 1000 0 0 2000 1000,
        ClearRect OutputCanvas 1024 512, FillWhite OutputCanvas 1024 512,
        DrawBuffer 1024 512, AddFrame OutputCanvas 100, GifRender]"
    unfolding generateGif_def setupCalls_def resizeCalls_def Let_def lw lh ow oh rr renderFrame_def
      drawCalls_def keyCalls_def outputCalls_def cw
    by (simp add: validFrameCoordinates_def tempCoords_def single_def plainBrowser_def isSet_def
        transparentRGB_def keyColor_def fdiv_def fmul_def fadd_def)
  have g: "filter isAddFrame (fst (generateGif plainBrowser single sheet2000))
           = [AddFrame OutputCanvas 100]"
    unfolding run by (simp add: isAddFrame_def)
  have i: "NewGIF 1024 512 None \<in> set (fst (generateGif plainBrowser single sheet2000))"
    unfolding run by simp
  from a d b c e f g i show ?thesis by blast
qed

text \<open>
  The longest output side need not be 1024: at the logical size 1122 by 561 the ratio is
  rounded down, the products fall just below 1024 and 512, and the output is 1023 by 511.
\<close>

lemma outputSize_1122:
  "outputSize True 1122 561 = (1023, 511, 8220474186145076 / 2 ^ 53)"
proof -
  have r: "fdiv 1024 1122 = 8220474186145076 / 2 ^ 53"
    unfolding fdiv_def
    using dbl_small [of "- 1" "1024 / 1122" 8220474186145076]
    by (simp add: power_int_def roundHalfEven_def)
  have pw: "fmul 1122 (8220474186145076 / 2 ^ 53) = 9007199254740991 / 2 ^ 43"
    unfolding fmul_def
    using dbl_small [of 9 "1122 * (8220474186145076 / 2 ^ 53)" 9007199254740991]
    by (simp add: power_int_def roundHalfEven_def)
  have ph: "fmul 561 (8220474186145076 / 2 ^ 53) = 9007199254740991 / 2 ^ 44"
    unfolding fmul_def
    using dbl_small [of 8 "561 * (8220474186145076 / 2 ^ 53)" 9007199254740991]
    by (simp add: power_int_def roundHalfEven_def)
  have a0: "outputSize True 1122 561
            = (\<lfloor>fmul 1122 (fdiv 1024 1122)\<rfloor>, \<lfloor>fmul 561 (fdiv 1024 1122)\<rfloor>, fdiv 1024 1122)"
    by (simp add: outputSize_def Let_def)
  show ?thesis
    unfolding a0 r pw ph by simp
qed

text \<open>
  The logical size is the floor of a rounded product as well: a cell of \<open>61 / 7\<close> pixels
  at the scale 7 has the logical width 60, since the quotient is rounded down and the
  product falls just below 61.
\<close>

lemma logicalWidth_sevenfold:
  "logicalWidth plainBrowser sevenfold sheet61 frames = 60"
proof -
  have q: "fdiv 61 7 = 4905706736957147 / 2 ^ 49"
    unfolding fdiv_def
    using dbl_small [of 3 "61 / 7" 4905706736957147]
    by (simp add: power_int_def roundHalfEven_def)
  have z: "fsub (4905706736957147 / 2 ^ 49) 0 = 4905706736957147 / 2 ^ 49"
    unfolding fsub_def
    using dbl_small [of 3 "4905706736957147 / 2 ^ 49 - 0" 4905706736957147]
    by (simp add: power_int_def roundHalfEven_def)
  have p: "fmul (4905706736957147 / 2 ^ 49) 7 = 8584986789675007 / 2 ^ 47"
    unfolding fmul_def
    using dbl_small [of 5 "4905706736957147 / 2 ^ 49 * 7" 8584986789675007]
    by (simp add: power_int_def roundHalfEven_def)
  have l0: "logicalWidth plainBrowser sevenfold sheet61 frames
            = \<lfloor>fmul (fsub (fsub (fdiv 61 7) 0) 0) 7\<rfloor>"
    by (simp add: logicalWidth_def finalSize_def cropWidth_def frameWidthRaw_def
        sevenfold_def sheet61_def)
  show ?thesis
    unfolding l0 q z p by simp
qed




section \<open>Reading and writing bytes\<close>

lemma length_wrb [simp]: "length (wrb xs i v) = length xs"
  by (simp add: wrb_def)

lemma rdb_wrb_other: "i \<noteq> j \<Longrightarrow> rdb (wrb xs i v) j = rdb xs j"
  by (auto simp: rdb_def wrb_def nth_list_update)

lemma uint_clamp8: "uint (clamp8 v) = max 0 (min 255 v)"
proof -
  have "0 \<le> max 0 (min 255 v)" "max 0 (min 255 v) < 2 ^ 8" by auto
  then show ?thesis
    unfolding clamp8_def by (simp add: uint_word_of_int take_bit_int_eq_self del: min_less_iff_conj)
qed

lemma rdb_wrb_same:
  "0 \<le> i \<Longrightarrow> i < int (length xs) \<Longrightarrow> rdb (wrb xs i v) i = Some (uint (clamp8 v))"
  by (simp add: rdb_def wrb_def)

lemma length_paintKey [simp]: "length (paintKey k data idx) = length data"
  by (simp add: paintKey_def)

lemma quad_paintKey_same:
  assumes "0 \<le> idx" and "idx + 3 < int (length data)"
  shows "quad (paintKey k data idx) idx = keyPixel k"
proof -
  have a: "rdb (paintKey k data idx) idx = Some (uint (clamp8 (red k)))"
    using assms by (simp add: paintKey_def rdb_wrb_other rdb_wrb_same)
  have b: "rdb (paintKey k data idx) (idx + 1) = Some (uint (clamp8 (green k)))"
    using assms by (simp add: paintKey_def rdb_wrb_other rdb_wrb_same)
  have c: "rdb (paintKey k data idx) (idx + 2) = Some (uint (clamp8 (blue k)))"
    using assms by (simp add: paintKey_def rdb_wrb_other rdb_wrb_same)
  have d: "rdb (paintKey k data idx) (idx + 3) = Some 255"
    using assms by (simp add: paintKey_def rdb_wrb_same uint_clamp8)
  show ?thesis by (simp add: quad_def keyPixel_def a b c d)
qed

lemma rdb_paintKey_other:
  "j < idx \<or> idx + 3 < j \<Longrightarrow> rdb (paintKey k data idx) j = rdb data j"
  by (auto simp: paintKey_def rdb_wrb_other)

lemma quad_paintKey_other:
  "j + 3 < idx \<or> idx + 3 < j \<Longrightarrow> quad (paintKey k data idx) j = quad data j"
  by (auto simp: quad_def rdb_paintKey_other)

lemma matches_quad:
  "quad data idx = quad data' idx \<Longrightarrow> matches t thr data idx = matches t thr data' idx"
  by (simp add: matches_def quad_def)

section \<open>Global mode\<close>

lemma globalStep_eq:
  "globalStep t k thr p data = (if matches t thr data p then paintKey k data p else data)"
  by (simp add: globalStep_def matches_def Let_def split: option.split)

lemma global_prefix:
  assumes "length data = 4 * n" and "m \<le> n"
  shows "length (fold (globalStep t k thr) (map (\<lambda>j. (4 * int j)) [0..<m]) data) = length data
         \<and> (\<forall>j<n. quad (fold (globalStep t k thr) (map (\<lambda>j. (4 * int j)) [0..<m]) data) ((4 * int j))
                  = (if j < m \<and> matches t thr data ((4 * int j)) then keyPixel k
                     else quad data ((4 * int j))))"
  using assms(2)
proof (induction m)
  case 0
  show ?case by simp
next
  case (Suc m)
  let ?d = "fold (globalStep t k thr) (map (\<lambda>j. (4 * int j)) [0..<m]) data"
  from Suc have len: "length ?d = length data"
    and old: "\<And>j. j < n \<Longrightarrow> quad ?d ((4 * int j))
                  = (if j < m \<and> matches t thr data ((4 * int j)) then keyPixel k
                     else quad data ((4 * int j)))"
    by simp_all
  have here: "quad ?d ((4 * int m)) = quad data ((4 * int m))"
    using old [of m] Suc.prems by simp
  then have test: "matches t thr ?d ((4 * int m)) = matches t thr data ((4 * int m))"
    by (rule matches_quad)
  have step: "fold (globalStep t k thr) (map (\<lambda>j. (4 * int j)) [0..<Suc m]) data
              = (if matches t thr data ((4 * int m)) then paintKey k ?d ((4 * int m)) else ?d)"
    by (simp add: globalStep_eq test)
  show ?case
  proof (intro conjI allI impI)
    show "length (fold (globalStep t k thr) (map (\<lambda>j. (4 * int j)) [0..<Suc m]) data) = length data"
      unfolding step by (simp add: len)
  next
    fix j assume j: "j < n"
    show "quad (fold (globalStep t k thr) (map (\<lambda>j. (4 * int j)) [0..<Suc m]) data) ((4 * int j))
          = (if j < Suc m \<and> matches t thr data ((4 * int j)) then keyPixel k
             else quad data ((4 * int j)))"
    proof (cases "j = m")
      case True
      have "(4 * int m) + 3 < int (length ?d)" using Suc.prems assms(1) len by simp
      then have "quad (paintKey k ?d ((4 * int m))) ((4 * int m)) = keyPixel k"
        by (intro quad_paintKey_same) simp_all
      then show ?thesis unfolding step using True here by simp
    next
      case False
      then have "(4 * int j) + 3 < (4 * int m) \<or> (4 * int m) + 3 < (4 * int j)" by auto
      then have "quad (paintKey k ?d ((4 * int m))) ((4 * int j)) = quad ?d ((4 * int j))"
        by (rule quad_paintKey_other)
      then show ?thesis unfolding step using False old [OF j] by auto
    qed
  qed
qed

lemma globalKey_pixel:
  assumes "length data = 4 * n" and "j < n"
  shows "quad (globalKey data t k thr) ((4 * int j))
         = (if matches t thr data ((4 * int j)) then keyPixel k else quad data ((4 * int j)))"
proof -
  have "(length data + 3) div 4 = n" using assms(1) by simp
  then show ?thesis
    using global_prefix [OF assms(1) order_refl, of t k thr] assms(2)
    by (simp add: globalKey_def)
qed

lemma pixel_offset:
  assumes "inGrid w h p"
  shows "\<exists>j < w * h. (snd p * int w + fst p) * 4 = (4 * int j)"
proof -
  obtain x y where p: "p = (x, y)" by (cases p)
  from assms p have b: "0 \<le> x" "x < int w" "0 \<le> y" "y < int h" by (simp_all add: inGrid_def)
  let ?j = "nat (y * int w + x)"
  have "y * int w + x < int w * int h"
  proof -
    have "y + 1 \<le> int h" using b by simp
    then have "(y + 1) * int w \<le> int h * int w" by (intro mult_right_mono) simp_all
    then show ?thesis using b by (simp add: algebra_simps)
  qed
  moreover have "0 \<le> y * int w + x" using b by simp
  ultimately have "?j < w * h" "(y * int w + x) * 4 = (4 * int ?j)"
    by (simp_all add: nat_less_iff)
  then show ?thesis using p by auto
qed

lemma globalKey_pixelAt:
  assumes "length data = 4 * (w * h)" and "inGrid w h p"
  shows "pixelAt w (globalKey data t k thr) p
         = (if matchesAt t thr w data p then keyPixel k else pixelAt w data p)"
proof -
  from pixel_offset [OF assms(2)] obtain j where "j < w * h"
    "(snd p * int w + fst p) * 4 = (4 * int j)" by blast
  then show ?thesis
    using globalKey_pixel [OF assms(1), of j t k thr]
    by (simp add: pixelAt_def matchesAt_def)
qed

section \<open>The analyzer\<close>

lemma scanPixel_step:
  assumes "scanned (contentAt t thr w data) w h S s"
    and "0 \<le> x" "x < int w" "0 \<le> y" "y < int h"
  shows "scanned (contentAt t thr w data) w h (insert (x, y) S) (scanPixel t thr data w y x s)"
proof (cases "contentAt t thr w data (x, y)")
  case False
  then have "scanPixel t thr data w y x s = s"
    by (simp add: scanPixel_def contentAt_def)
  moreover from False have "(\<exists>p\<in>insert (x, y) S. contentAt t thr w data p)
      \<longleftrightarrow> (\<exists>p\<in>S. contentAt t thr w data p)" by auto
  ultimately show ?thesis using assms(1) False
    unfolding scanned_def by auto
next
  case True
  let ?C = "contentAt t thr w data"
  let ?s' = "scanPixel t thr data w y x s"
  from True have upd: "?s' = s\<lparr>sMinX := (if x < sMinX s then x else sMinX s),
                sMaxX := (if x > sMaxX s then x else sMaxX s),
                sMinY := (if y < sMinY s then y else sMinY s),
                sMaxY := (if y > sMaxY s then y else sMaxY s),
                found := True\<rparr>"
    by (simp add: scanPixel_def contentAt_def Let_def)
  show ?thesis
  proof (cases "\<exists>p\<in>S. ?C p")
    case False
    with assms(1) have s: "s = \<lparr>sMinX = int w, sMinY = int h, sMaxX = 0, sMaxY = 0, found = False\<rparr>"
      by (simp add: scanned_def)
    have vals: "sMinX ?s' = x" "sMaxX ?s' = x" "sMinY ?s' = y" "sMaxY ?s' = y" "found ?s'"
      unfolding upd using assms(2-5) by (simp_all add: s)
    have none: "\<forall>p\<in>S. \<not> ?C p" using False by blast
    have some: "\<exists>p\<in>insert (x, y) S. ?C p" using True by blast
    have bounds: "\<forall>p\<in>insert (x, y) S. ?C p \<longrightarrow> x \<le> fst p \<and> fst p \<le> x \<and> y \<le> snd p \<and> snd p \<le> y"
      using none by auto
    have hit: "\<exists>p\<in>insert (x, y) S. ?C p \<and> fst p = x" "\<exists>p\<in>insert (x, y) S. ?C p \<and> snd p = y"
      using True by auto
    show ?thesis
      unfolding scanned_def vals using some bounds hit vals(5) by simp
  next
    case has: True
    with assms(1) have old: "found s"
      "\<And>p. p \<in> S \<Longrightarrow> ?C p \<Longrightarrow> sMinX s \<le> fst p \<and> fst p \<le> sMaxX s
                                \<and> sMinY s \<le> snd p \<and> snd p \<le> sMaxY s"
      "\<exists>p\<in>S. ?C p \<and> fst p = sMinX s" "\<exists>p\<in>S. ?C p \<and> fst p = sMaxX s"
      "\<exists>p\<in>S. ?C p \<and> snd p = sMinY s" "\<exists>p\<in>S. ?C p \<and> snd p = sMaxY s"
      by (simp_all add: scanned_def)
    have vals: "sMinX ?s' = min x (sMinX s)" "sMaxX ?s' = max x (sMaxX s)"
      "sMinY ?s' = min y (sMinY s)" "sMaxY ?s' = max y (sMaxY s)" "found ?s'"
      unfolding upd by (simp_all add: min_def max_def)
    have bounds: "\<forall>p\<in>insert (x, y) S. ?C p \<longrightarrow> sMinX ?s' \<le> fst p \<and> fst p \<le> sMaxX ?s'
                                \<and> sMinY ?s' \<le> snd p \<and> snd p \<le> sMaxY ?s'"
      unfolding vals
    proof (intro ballI impI)
      fix p assume p: "p \<in> insert (x, y) S" "?C p"
      show "min x (sMinX s) \<le> fst p \<and> fst p \<le> max x (sMaxX s)
            \<and> min y (sMinY s) \<le> snd p \<and> snd p \<le> max y (sMaxY s)"
      proof (cases "p = (x, y)")
        case True
        then show ?thesis by simp
      next
        case False
        with p have "p \<in> S" by simp
        from old(2) [OF this p(2)] show ?thesis
          by (simp add: min_le_iff_disj le_max_iff_disj)
      qed
    qed
    have a: "\<exists>p\<in>insert (x, y) S. ?C p \<and> fst p = sMinX ?s'"
      unfolding vals using old(3) True by (cases "x \<le> sMinX s") (auto simp: min_def)
    have b: "\<exists>p\<in>insert (x, y) S. ?C p \<and> fst p = sMaxX ?s'"
      unfolding vals using old(4) True by (cases "x \<le> sMaxX s") (auto simp: max_def)
    have c: "\<exists>p\<in>insert (x, y) S. ?C p \<and> snd p = sMinY ?s'"
      unfolding vals using old(5) True by (cases "y \<le> sMinY s") (auto simp: min_def)
    have d: "\<exists>p\<in>insert (x, y) S. ?C p \<and> snd p = sMaxY ?s'"
      unfolding vals using old(6) True by (cases "y \<le> sMaxY s") (auto simp: max_def)
    have "\<exists>p\<in>insert (x, y) S. ?C p" using True by auto
    then show ?thesis
      unfolding scanned_def using vals(5) bounds a b c d by simp
  qed
qed

lemma scan_row:
  assumes "scanned (contentAt t thr w data) w h S s" and "y < h" and "m \<le> w"
  shows "scanned (contentAt t thr w data) w h (S \<union> {(int x, int y) | x. x < m})
           (fold (\<lambda>x s. scanPixel t thr data w (int y) (int x) s) [0..<m] s)"
  using assms(3)
proof (induction m)
  case 0
  then show ?case using assms(1) by simp
next
  case (Suc m)
  have set: "S \<union> {(int x, int y) | x. x < Suc m}
             = insert (int m, int y) (S \<union> {(int x, int y) | x. x < m})"
    by (auto simp: less_Suc_eq)
  show ?case
    unfolding set using Suc assms(2) by (simp add: scanPixel_step)
qed

lemma scan_rows:
  assumes "m \<le> h"
  shows "scanned (contentAt t thr w data) w h {(int x, int y) | x y. x < w \<and> y < m}
           (fold (\<lambda>y s. fold (\<lambda>x s. scanPixel t thr data w (int y) (int x) s) [0..<w] s) [0..<m]
              \<lparr>sMinX = int w, sMinY = int h, sMaxX = 0, sMaxY = 0, found = False\<rparr>)"
  using assms
proof (induction m)
  case 0
  show ?case by (simp add: scanned_def)
next
  case (Suc m)
  have set: "{(int x, int y) | x y. x < w \<and> y < Suc m}
             = {(int x, int y) | x y. x < w \<and> y < m} \<union> {(int x, int m) | x. x < w}"
    by (auto simp: less_Suc_eq)
  show ?case
    unfolding set using Suc scan_row [of t thr w data h _ _ m w] by simp
qed

lemma grid_pixels: "{(int x, int y) | x y. x < w \<and> y < h} = {p. inGrid w h p}"
proof (intro set_eqI iffI)
  fix p assume "p \<in> {(int x, int y) | x y. x < w \<and> y < h}"
  then show "p \<in> {p. inGrid w h p}" by (auto simp: inGrid_def)
next
  fix p assume "p \<in> {p. inGrid w h p}"
  then have "p = (int (nat (fst p)), int (nat (snd p)))" "nat (fst p) < w" "nat (snd p) < h"
    by (auto simp: inGrid_def)
  then show "p \<in> {(int x, int y) | x y. x < w \<and> y < h}" by blast
qed

lemma getContentBoundingBox_scanned:
  "\<exists>s. scanned (contentAt t thr w data) w h {p. inGrid w h p} s
       \<and> getContentBoundingBox data w h t thr
         = (if \<not> found s then None
            else Some \<lparr>minX = sMinX s, minY = sMinY s, maxX = sMaxX s, maxY = sMaxY s,
                        bwidth = sMaxX s - sMinX s + 1, bheight = sMaxY s - sMinY s + 1\<rparr>)"
  using scan_rows [OF order_refl, of t thr w data h]
  unfolding grid_pixels getContentBoundingBox_def Let_def by blast

lemma quad_in_range:
  assumes "length data = 4 * n" and "j < n"
  shows "\<exists>r g b a. quad data (4 * int j) = [Some r, Some g, Some b, Some a]"
  using assms by (simp add: quad_def rdb_def)

lemma contentAt_background:
  assumes "length data = 4 * (w * h)" and "inGrid w h p"
  shows "contentAt t thr w data p \<longleftrightarrow> \<not> isBackground t thr (pixelAt w data p)"
proof -
  from pixel_offset [OF assms(2)] obtain j where j: "j < w * h"
    "(snd p * int w + fst p) * 4 = 4 * int j" by blast
  from quad_in_range [OF assms(1) j(1)] obtain r g b a
    where q: "quad data (4 * int j) = [Some r, Some g, Some b, Some a]" by blast
  then have reads: "rdb data (4 * int j) = Some r" "rdb data (4 * int j + 1) = Some g"
    "rdb data (4 * int j + 2) = Some b" "rdb data (4 * int j + 3) = Some a"
    by (simp_all add: quad_def)
  show ?thesis
    unfolding contentAt_def pixelAt_def j(2) isContent_def isBackground_def q
    by (auto simp add: reads distSq_def Let_def not_le split: option.split)
qed

section \<open>Claims about the analyzer and the global key\<close>

text \<open>
  C6. On a bitmap of \<open>w\<close> by \<open>h\<close> pixels: if every pixel is background (alpha 0, or
  within the threshold of the target colour when one is configured), the analyzer
  returns none; if the only pixel that is not background is a fully opaque pixel at
  \<open>(5, 5)\<close>, it returns the box with \<open>minX = 5\<close>, \<open>minY = 5\<close>, width 1 and height 1;
  and whenever some pixel is content, the box returned is the tightest rectangle that
  encloses all content pixels: every content pixel lies within it, each of its four
  sides is met by a content pixel, and its width and height span it exactly.
\<close>

theorem C6_bounding_box:
  assumes "length data = 4 * (w * h)"
  shows "((\<forall>p. inGrid w h p \<longrightarrow> isBackground t thr (pixelAt w data p))
            \<longrightarrow> getContentBoundingBox data w h t thr = None)
         \<and> (inGrid w h (5, 5) \<and> pixelAt w data (5, 5) ! 3 = Some 255
              \<and> \<not> isBackground t thr (pixelAt w data (5, 5))
              \<and> (\<forall>p. inGrid w h p \<and> p \<noteq> (5, 5) \<longrightarrow> isBackground t thr (pixelAt w data p))
            \<longrightarrow> getContentBoundingBox data w h t thr
                = Some \<lparr>minX = 5, minY = 5, maxX = 5, maxY = 5, bwidth = 1, bheight = 1\<rparr>)
         \<and> ((\<exists>p. inGrid w h p \<and> \<not> isBackground t thr (pixelAt w data p))
            \<longrightarrow> (\<exists>box. getContentBoundingBox data w h t thr = Some box
                  \<and> (\<forall>p. inGrid w h p \<and> \<not> isBackground t thr (pixelAt w data p)
                         \<longrightarrow> minX box \<le> fst p \<and> fst p \<le> maxX box
                             \<and> minY box \<le> snd p \<and> snd p \<le> maxY box)
                  \<and> (\<exists>p. inGrid w h p \<and> \<not> isBackground t thr (pixelAt w data p)
                           \<and> fst p = minX box)
                  \<and> (\<exists>p. inGrid w h p \<and> \<not> isBackground t thr (pixelAt w data p)
                           \<and> fst p = maxX box)
                  \<and> (\<exists>p. inGrid w h p \<and> \<not> isBackground t thr (pixelAt w data p)
                           \<and> snd p = minY box)
                  \<and> (\<exists>p. inGrid w h p \<and> \<not> isBackground t thr (pixelAt w data p)
                           \<and> snd p = maxY box)
                  \<and> bwidth box = maxX box - minX box + 1
                  \<and> bheight box = maxY box - minY box + 1))"
proof -
  let ?C = "contentAt t thr w data"
  let ?G = "{p. inGrid w h p}"
  let ?bg = "\<lambda>p. isBackground t thr (pixelAt w data p)"
  from getContentBoundingBox_scanned [of t thr w data h] obtain s
    where sc: "scanned ?C w h ?G s"
      and res: "getContentBoundingBox data w h t thr
         = (if \<not> found s then None
            else Some \<lparr>minX = sMinX s, minY = sMinY s, maxX = sMaxX s, maxY = sMaxY s,
                        bwidth = sMaxX s - sMinX s + 1, bheight = sMaxY s - sMinY s + 1\<rparr>)"
    by blast
  have cb: "?C p \<longleftrightarrow> \<not> ?bg p" if "inGrid w h p" for p
    using contentAt_background [OF assms that] .
  have none: "getContentBoundingBox data w h t thr = None"
    if "\<forall>p. inGrid w h p \<longrightarrow> ?bg p"
  proof -
    from that cb have "\<not> (\<exists>p\<in>?G. ?C p)" by auto
    with sc have "\<not> found s" by (simp add: scanned_def)
    with res show ?thesis by simp
  qed
  have tight: "found s
      \<and> (\<forall>p. inGrid w h p \<and> \<not> ?bg p \<longrightarrow> sMinX s \<le> fst p \<and> fst p \<le> sMaxX s
                                \<and> sMinY s \<le> snd p \<and> snd p \<le> sMaxY s)
      \<and> (\<exists>p. inGrid w h p \<and> \<not> ?bg p \<and> fst p = sMinX s)
      \<and> (\<exists>p. inGrid w h p \<and> \<not> ?bg p \<and> fst p = sMaxX s)
      \<and> (\<exists>p. inGrid w h p \<and> \<not> ?bg p \<and> snd p = sMinY s)
      \<and> (\<exists>p. inGrid w h p \<and> \<not> ?bg p \<and> snd p = sMaxY s)"
    if "\<exists>p. inGrid w h p \<and> \<not> ?bg p"
  proof -
    from that cb have "\<exists>p\<in>?G. ?C p" by auto
    with sc have parts: "found s"
      "\<forall>p\<in>?G. ?C p \<longrightarrow> sMinX s \<le> fst p \<and> fst p \<le> sMaxX s
                                \<and> sMinY s \<le> snd p \<and> snd p \<le> sMaxY s"
      "\<exists>p\<in>?G. ?C p \<and> fst p = sMinX s" "\<exists>p\<in>?G. ?C p \<and> fst p = sMaxX s"
      "\<exists>p\<in>?G. ?C p \<and> snd p = sMinY s" "\<exists>p\<in>?G. ?C p \<and> snd p = sMaxY s"
      by (simp_all add: scanned_def)
    have a: "\<forall>p. inGrid w h p \<and> \<not> ?bg p \<longrightarrow> sMinX s \<le> fst p \<and> fst p \<le> sMaxX s
                                \<and> sMinY s \<le> snd p \<and> snd p \<le> sMaxY s"
      using parts(2) cb by auto
    have b: "\<exists>p. inGrid w h p \<and> \<not> ?bg p \<and> fst p = sMinX s" using parts(3) cb by auto
    have c: "\<exists>p. inGrid w h p \<and> \<not> ?bg p \<and> fst p = sMaxX s" using parts(4) cb by auto
    have d: "\<exists>p. inGrid w h p \<and> \<not> ?bg p \<and> snd p = sMinY s" using parts(5) cb by auto
    have e: "\<exists>p. inGrid w h p \<and> \<not> ?bg p \<and> snd p = sMaxY s" using parts(6) cb by auto
    from parts(1) a b c d e show ?thesis by blast
  qed
  have general: "\<exists>box. getContentBoundingBox data w h t thr = Some box
                  \<and> (\<forall>p. inGrid w h p \<and> \<not> ?bg p
                         \<longrightarrow> minX box \<le> fst p \<and> fst p \<le> maxX box
                             \<and> minY box \<le> snd p \<and> snd p \<le> maxY box)
                  \<and> (\<exists>p. inGrid w h p \<and> \<not> ?bg p \<and> fst p = minX box)
                  \<and> (\<exists>p. inGrid w h p \<and> \<not> ?bg p \<and> fst p = maxX box)
                  \<and> (\<exists>p. inGrid w h p \<and> \<not> ?bg p \<and> snd p = minY box)
                  \<and> (\<exists>p. inGrid w h p \<and> \<not> ?bg p \<and> snd p = maxY box)
                  \<and> bwidth box = maxX box - minX box + 1
                  \<and> bheight box = maxY box - minY box + 1"
    if "\<exists>p. inGrid w h p \<and> \<not> ?bg p"
    using tight [OF that] res by simp
  have single: "getContentBoundingBox data w h t thr
                = Some \<lparr>minX = 5, minY = 5, maxX = 5, maxY = 5, bwidth = 1, bheight = 1\<rparr>"
    if "inGrid w h (5, 5)" "\<not> ?bg (5, 5)" "\<forall>p. inGrid w h p \<and> p \<noteq> (5, 5) \<longrightarrow> ?bg p"
  proof -
    have only: "p = (5, 5)" if "inGrid w h p" "\<not> ?bg p" for p
      using that \<open>\<forall>p. inGrid w h p \<and> p \<noteq> (5, 5) \<longrightarrow> ?bg p\<close> by blast
    have ex: "\<exists>p. inGrid w h p \<and> \<not> ?bg p" using that(1,2) by blast
    from tight [OF ex] only have "found s" "sMinX s = 5" "sMaxX s = 5" "sMinY s = 5" "sMaxY s = 5"
      by (metis fst_conv, metis fst_conv, metis fst_conv, metis snd_conv, metis snd_conv)
    with res show ?thesis by simp
  qed
  from none single general show ?thesis by blast
qed

text \<open>
  C6 at a bitmap of one transparent pixel, and at a bitmap of 6 by 6 pixels whose last
  pixel, at \<open>(5, 5)\<close>, is opaque red.
\<close>

lemma dot6_blank:
  assumes "inGrid 6 6 p" and "p \<noteq> (5, 5)"
  shows "pixelAt 6 dot6 p ! 3 = Some 0"
proof -
  obtain x y where p: "p = (x, y)" by (cases p)
  from assms p have b: "0 \<le> x" "x < 6" "0 \<le> y" "y < 6" "x \<noteq> 5 \<or> y \<noteq> 5"
    by (simp_all add: inGrid_def)
  then have lt: "(y * 6 + x) * 4 + 3 < 140" by auto
  have ge: "0 \<le> (y * 6 + x) * 4 + 3" using b by simp
  from lt ge have "nat ((y * 6 + x) * 4 + 3) < 140" by simp
  then have "dot6 ! nat ((y * 6 + x) * 4 + 3) = 0"
    by (simp add: dot6_def nth_append)
  then show ?thesis using lt ge by (simp add: p pixelAt_def quad_def rdb_def dot6_def)
qed

theorem C6_bounding_box_witness:
  "getContentBoundingBox blank1 1 1 None 0 = None
   \<and> getContentBoundingBox dot6 6 6 None 0
     = Some \<lparr>minX = 5, minY = 5, maxX = 5, maxY = 5, bwidth = 1, bheight = 1\<rparr>
   \<and> (\<exists>box. getContentBoundingBox dot6 6 6 None 0 = Some box
         \<and> bwidth box = maxX box - minX box + 1)"
proof -
  have len1: "length blank1 = 4 * (1 * 1)" by (simp add: blank1_def)
  have bg1: "\<forall>p. inGrid 1 1 p \<longrightarrow> isBackground None 0 (pixelAt 1 blank1 p)"
  proof (intro allI impI)
    fix p :: "int \<times> int" assume "inGrid 1 1 p"
    then have "p = (0, 0)" by (cases p) (simp add: inGrid_def)
    then show "isBackground None 0 (pixelAt 1 blank1 p)"
      by (simp add: isBackground_def pixelAt_def quad_def rdb_def blank1_def)
  qed
  have len6: "length dot6 = 4 * (6 * 6)" by (simp add: dot6_def)
  have in6: "inGrid 6 6 (5, 5)" by (simp add: inGrid_def)
  have px6: "pixelAt 6 dot6 (5, 5) = [Some 255, Some 0, Some 0, Some 255]"
    by (simp add: pixelAt_def quad_def rdb_def dot6_def nth_append)
  have fg6: "\<not> isBackground None 0 (pixelAt 6 dot6 (5, 5))"
    unfolding px6 by (simp add: isBackground_def)
  have bg6: "\<forall>p. inGrid 6 6 p \<and> p \<noteq> (5, 5) \<longrightarrow> isBackground None 0 (pixelAt 6 dot6 p)"
    using dot6_blank by (simp add: isBackground_def)
  have ex6: "\<exists>p. inGrid 6 6 p \<and> \<not> isBackground None 0 (pixelAt 6 dot6 p)"
    using in6 fg6 by blast
  from C6_bounding_box [OF len1, of None 0] bg1
  have a: "getContentBoundingBox blank1 1 1 None 0 = None" by blast
  from C6_bounding_box [OF len6, of None 0] in6 px6 fg6 bg6
  have b: "getContentBoundingBox dot6 6 6 None 0
     = Some \<lparr>minX = 5, minY = 5, maxX = 5, maxY = 5, bwidth = 1, bheight = 1\<rparr>" by simp
  from C6_bounding_box [OF len6, of None 0] ex6
  have c: "\<exists>box. getContentBoundingBox dot6 6 6 None 0 = Some box
         \<and> bwidth box = maxX box - minX box + 1" by blast
  from a b c show ?thesis by blast
qed

text \<open>
  C7. In the export pipeline a pixel whose alpha is 0 is a key pixel in both modes,
  whatever its colour: the global mode rewrites it to the opaque key colour, and the
  match test of the flood fill accepts it. The two modes apply the same test: the global
  loop rewrites a pixel exactly when the match test of the flood fill holds of it.
\<close>

theorem C7_zero_alpha_is_key:
  assumes "length data = 4 * (w * h)" and "inGrid w h p" and "pixelAt w data p ! 3 = Some 0"
  shows "pixelAt w (globalKey data t k thr) p = keyPixel k
         \<and> matchesAt t thr w data p
         \<and> matches t thr data ((snd p * int w + fst p) * 4)
         \<and> globalStep t k thr idx d = (if matches t thr d idx then paintKey k d idx else d)"
proof -
  have m: "matches t thr data ((snd p * int w + fst p) * 4)"
    using assms(3) by (simp add: matches_def pixelAt_def quad_def)
  then have ma: "matchesAt t thr w data p" by (simp add: matchesAt_def)
  have g: "pixelAt w (globalKey data t k thr) p = keyPixel k"
    using globalKey_pixelAt [OF assms(1,2), of t k thr] ma by simp
  from g ma m globalStep_eq [of t k thr idx d] show ?thesis by blast
qed

text \<open>C7 at a single pixel of colour (10, 20, 30) and alpha 0, far from the target.\<close>

theorem C7_zero_alpha_is_key_witness:
  "pixelAt 1 blank1 (0, 0) = [Some 10, Some 20, Some 30, Some 0]
   \<and> pixelAt 1 (globalKey blank1 white magenta 0) (0, 0) = [Some 255, Some 0, Some 255, Some 255]
   \<and> matches white 0 blank1 0"
proof -
  have len: "length blank1 = 4 * (1 * 1)" by (simp add: blank1_def)
  have ing: "inGrid 1 1 (0, 0)" by (simp add: inGrid_def)
  have px: "pixelAt 1 blank1 (0, 0) = [Some 10, Some 20, Some 30, Some 0]"
    by (simp add: pixelAt_def quad_def rdb_def blank1_def)
  then have alpha: "pixelAt 1 blank1 (0, 0) ! 3 = Some 0" by simp
  have key: "keyPixel magenta = [Some 255, Some 0, Some 255, Some 255]"
    by (simp add: keyPixel_def magenta_def uint_clamp8)
  from C7_zero_alpha_is_key [OF len ing alpha, of white magenta 0] px key
  show ?thesis by simp
qed

section \<open>The flood fill terminates\<close>

lemma truthy_mark:
  "0 \<le> v \<Longrightarrow> v < int (length vs) \<Longrightarrow> truthy (rdb (wrb vs v 1) v)"
  by (simp add: rdb_wrb_same uint_clamp8 truthy_def)

lemma addSeed_probe: "addSeed M w x y st = probe M (y * int w + x) st"
  by (simp add: addSeed_def probe_def Let_def)

lemma visit_probe:
  "visit M w h (nx, ny) st
   = (if nx \<ge> 0 \<and> nx < int w \<and> ny \<ge> 0 \<and> ny < int h then probe M (ny * int w + nx) st else st)"
  by (simp add: visit_def probe_def Let_def)

lemma probe_fields [simp]:
  "head (probe M v st) = head st" "fdata (probe M v st) = fdata st"
  by (simp_all add: probe_def)

lemma probe_queue:
  "queue (probe M v st) = queue st \<or> queue (probe M v st) = queue st @ [v]"
  by (simp add: probe_def)

lemma probe_queue_mono: "set (queue st) \<subseteq> set (queue (probe M v st))"
  using probe_queue [of M v st] by auto

lemma floodInv_touch:
  "floodInv w h (st\<lparr>touched := ts\<rparr>)
   \<longleftrightarrow> (length (visited st) = w * h
      \<and> head st \<le> length (queue st)
      \<and> distinct (queue st)
      \<and> (\<forall>v\<in>set (queue st). 0 \<le> v \<and> v < int (w * h) \<and> truthy (rdb (visited st) v))
      \<and> (\<forall>v. 0 \<le> v \<and> v < int (w * h) \<and> truthy (rdb (visited st) v) \<longrightarrow> v \<in> set (queue st))
      \<and> (\<forall>i\<in>set ts. \<exists>v. i = v * 4 \<and> 0 \<le> v \<and> v < int (w * h)))"
  by (simp add: floodInv_def)

lemma floodInv_push:
  "floodInv w h (st\<lparr>visited := vs, queue := qs, touched := ts\<rparr>)
   \<longleftrightarrow> (length vs = w * h
      \<and> head st \<le> length qs
      \<and> distinct qs
      \<and> (\<forall>v\<in>set qs. 0 \<le> v \<and> v < int (w * h) \<and> truthy (rdb vs v))
      \<and> (\<forall>v. 0 \<le> v \<and> v < int (w * h) \<and> truthy (rdb vs v) \<longrightarrow> v \<in> set qs)
      \<and> (\<forall>i\<in>set ts. \<exists>v. i = v * 4 \<and> 0 \<le> v \<and> v < int (w * h)))"
  by (simp add: floodInv_def)

lemma floodInv_advance:
  "floodInv w h (st\<lparr>head := n, fdata := d, touched := ts\<rparr>)
   \<longleftrightarrow> (length (visited st) = w * h
      \<and> n \<le> length (queue st)
      \<and> distinct (queue st)
      \<and> (\<forall>v\<in>set (queue st). 0 \<le> v \<and> v < int (w * h) \<and> truthy (rdb (visited st) v))
      \<and> (\<forall>v. 0 \<le> v \<and> v < int (w * h) \<and> truthy (rdb (visited st) v) \<longrightarrow> v \<in> set (queue st))
      \<and> (\<forall>i\<in>set ts. \<exists>v. i = v * 4 \<and> 0 \<le> v \<and> v < int (w * h)))"
  by (simp add: floodInv_def)

lemma probe_inv:
  assumes "floodInv w h st" and "0 \<le> v" and "v < int (w * h)"
  shows "floodInv w h (probe M v st)"
proof (cases "truthy (rdb (visited st) v)")
  case True
  then have "probe M v st = st" by (simp add: probe_def)
  then show ?thesis using assms(1) by simp
next
  case False
  from assms(1) have len: "length (visited st) = w * h"
    and hd: "head st \<le> length (queue st)" and dist: "distinct (queue st)"
    and qs: "\<forall>u\<in>set (queue st). 0 \<le> u \<and> u < int (w * h) \<and> truthy (rdb (visited st) u)"
    and vs: "\<forall>u. 0 \<le> u \<and> u < int (w * h) \<and> truthy (rdb (visited st) u) \<longrightarrow> u \<in> set (queue st)"
    and ts: "\<forall>i\<in>set (touched st). \<exists>u. i = u * 4 \<and> 0 \<le> u \<and> u < int (w * h)"
    unfolding floodInv_def by blast+
  have ts': "\<forall>i\<in>set (touched st @ [v * 4]). \<exists>u. i = u * 4 \<and> 0 \<le> u \<and> u < int (w * h)"
  proof
    fix i assume "i \<in> set (touched st @ [v * 4])"
    then consider "i \<in> set (touched st)" | "i = v * 4" by auto
    then show "\<exists>u. i = u * 4 \<and> 0 \<le> u \<and> u < int (w * h)"
    proof cases
      case 1
      with ts show ?thesis by blast
    next
      case 2
      with assms(2,3) show ?thesis by blast
    qed
  qed
  show ?thesis
  proof (cases "M (fdata st) (v * 4)")
    case no: False
    with False have eq: "probe M v st = st\<lparr>touched := touched st @ [v * 4]\<rparr>"
      by (simp add: probe_def)
    show ?thesis
      unfolding eq floodInv_touch by (intro conjI len hd dist qs vs ts')
  next
    case yes: True
    with False have eq: "probe M v st
        = st\<lparr>visited := wrb (visited st) v 1, queue := queue st @ [v],
              touched := touched st @ [v * 4]\<rparr>"
      by (simp add: probe_def)
    have fresh: "v \<notin> set (queue st)" using qs False by blast
    have vin: "v < int (length (visited st))" using assms(3) len by simp
    have mark: "truthy (rdb (wrb (visited st) v 1) u) \<longleftrightarrow> u = v \<or> truthy (rdb (visited st) u)"
      for u
    proof (cases "u = v")
      case True
      then show ?thesis using truthy_mark [OF assms(2) vin] by simp
    next
      case False
      then have "rdb (wrb (visited st) v 1) u = rdb (visited st) u"
        by (intro rdb_wrb_other) simp
      then show ?thesis using False by simp
    qed
    have c1: "length (wrb (visited st) v 1) = w * h" using len by simp
    have c2: "head st \<le> length (queue st @ [v])" using hd by simp
    have c3: "distinct (queue st @ [v])" using dist fresh by simp
    have c4: "\<forall>u\<in>set (queue st @ [v]). 0 \<le> u \<and> u < int (w * h)
                \<and> truthy (rdb (wrb (visited st) v 1) u)"
    proof
      fix u assume "u \<in> set (queue st @ [v])"
      then consider "u \<in> set (queue st)" | "u = v" by auto
      then show "0 \<le> u \<and> u < int (w * h) \<and> truthy (rdb (wrb (visited st) v 1) u)"
      proof cases
        case 1
        with qs have "0 \<le> u \<and> u < int (w * h) \<and> truthy (rdb (visited st) u)" by blast
        then show ?thesis unfolding mark by blast
      next
        case 2
        then show ?thesis unfolding mark using assms(2,3) by blast
      qed
    qed
    have c5: "\<forall>u. 0 \<le> u \<and> u < int (w * h) \<and> truthy (rdb (wrb (visited st) v 1) u)
                \<longrightarrow> u \<in> set (queue st @ [v])"
    proof (intro allI impI)
      fix u assume u: "0 \<le> u \<and> u < int (w * h) \<and> truthy (rdb (wrb (visited st) v 1) u)"
      then have "u = v \<or> truthy (rdb (visited st) u)" unfolding mark by blast
      then show "u \<in> set (queue st @ [v])" using vs u by auto
    qed
    show ?thesis
      unfolding eq floodInv_push by (intro conjI c1 c2 c3 c4 c5 ts')
  qed
qed

lemma cell_index_bounds:
  assumes "0 \<le> x" "x < int w" "0 \<le> y" "y < int h"
  shows "0 \<le> y * int w + x" and "y * int w + x < int (w * h)"
proof -
  show "0 \<le> y * int w + x" using assms by simp
  have "y + 1 \<le> int h" using assms by simp
  then have "(y + 1) * int w \<le> int h * int w" by (intro mult_right_mono) simp_all
  then show "y * int w + x < int (w * h)" using assms by (simp add: algebra_simps)
qed

lemma addSeed_inv:
  assumes "floodInv w h st" and "0 \<le> x" "x < int w" "0 \<le> y" "y < int h"
  shows "floodInv w h (addSeed M w x y st)"
  unfolding addSeed_probe using assms cell_index_bounds [OF assms(2-5)] by (intro probe_inv)

lemma visit_inv:
  assumes "floodInv w h st"
  shows "floodInv w h (visit M w h n st)"
proof -
  obtain nx ny where n: "n = (nx, ny)" by (cases n)
  show ?thesis
  proof (cases "nx \<ge> 0 \<and> nx < int w \<and> ny \<ge> 0 \<and> ny < int h")
    case True
    then have "0 \<le> ny * int w + nx" "ny * int w + nx < int (w * h)"
      using cell_index_bounds [of nx w ny h] by simp_all
    from probe_inv [OF assms this] True show ?thesis by (simp add: n visit_probe)
  next
    case False
    have "visit M w h (nx, ny) st = st"
      by (subst visit_probe) (simp only: False if_False)
    then show ?thesis using assms by (simp add: n)
  qed
qed

lemma visit_fields [simp]:
  "head (visit M w h n st) = head st" "fdata (visit M w h n st) = fdata st"
  by (cases n; simp add: visit_probe)+

lemma visit_queue_mono: "set (queue st) \<subseteq> set (queue (visit M w h n st))"
  by (cases n) (simp add: visit_probe probe_queue_mono)

lemma visits_inv:
  "floodInv w h st \<Longrightarrow> floodInv w h (fold (visit M w h) ns st)"
  by (induction ns arbitrary: st) (simp_all add: visit_inv)

lemma visits_fields [simp]:
  "head (fold (visit M w h) ns st) = head st" "fdata (fold (visit M w h) ns st) = fdata st"
  by (induction ns arbitrary: st) simp_all

lemma visits_queue_mono: "set (queue st) \<subseteq> set (queue (fold (visit M w h) ns st))"
proof (induction ns arbitrary: st)
  case Nil
  show ?case by simp
next
  case (Cons n ns)
  have "set (queue st) \<subseteq> set (queue (visit M w h n st))" by (rule visit_queue_mono)
  also have "\<dots> \<subseteq> set (queue (fold (visit M w h) ns (visit M w h n st)))" by (rule Cons.IH)
  finally show ?case by simp
qed

lemma floodStep_head [simp]: "head (floodStep M P w h st) = head st + 1"
  by (simp add: floodStep_def Let_def)

lemma advance_inv:
  assumes "floodInv w h st" and "head st < length (queue st)"
  shows "floodInv w h (st\<lparr>head := head st + 1, fdata := d,
                          touched := touched st @ [queue st ! head st * 4]\<rparr>)"
proof -
  let ?v = "queue st ! head st"
  have "?v \<in> set (queue st)" using assms(2) by simp
  with assms(1) have v: "0 \<le> ?v" "?v < int (w * h)" unfolding floodInv_def by blast+
  from assms(1) have len: "length (visited st) = w * h"
    and dist: "distinct (queue st)"
    and qs: "\<forall>u\<in>set (queue st). 0 \<le> u \<and> u < int (w * h) \<and> truthy (rdb (visited st) u)"
    and vs: "\<forall>u. 0 \<le> u \<and> u < int (w * h) \<and> truthy (rdb (visited st) u) \<longrightarrow> u \<in> set (queue st)"
    and ts: "\<forall>i\<in>set (touched st). \<exists>u. i = u * 4 \<and> 0 \<le> u \<and> u < int (w * h)"
    unfolding floodInv_def by blast+
  have hd: "head st + 1 \<le> length (queue st)" using assms(2) by simp
  have ts': "\<forall>i\<in>set (touched st @ [?v * 4]). \<exists>u. i = u * 4 \<and> 0 \<le> u \<and> u < int (w * h)"
  proof
    fix i assume "i \<in> set (touched st @ [?v * 4])"
    then consider "i \<in> set (touched st)" | "i = ?v * 4" by auto
    then show "\<exists>u. i = u * 4 \<and> 0 \<le> u \<and> u < int (w * h)"
    proof cases
      case 1
      with ts show ?thesis by blast
    next
      case 2
      with v show ?thesis by blast
    qed
  qed
  show ?thesis
    unfolding floodInv_advance by (intro conjI len hd dist qs vs ts')
qed

lemma floodStep_inv:
  assumes "floodInv w h st" and "head st < length (queue st)"
  shows "floodInv w h (floodStep M P w h st)"
  unfolding floodStep_def Let_def
  by (rule visits_inv) (rule advance_inv [OF assms])

lemma queue_bound:
  assumes "floodInv w h st"
  shows "length (queue st) \<le> w * h"
proof -
  from assms have d: "distinct (queue st)"
    and r: "set (queue st) \<subseteq> {0..<int (w * h)}" by (auto simp: floodInv_def)
  have "length (queue st) = card (set (queue st))" using d by (simp add: distinct_card)
  also have "\<dots> \<le> card {0..<int (w * h)}" using r by (intro card_mono) simp_all
  finally show ?thesis by (simp del: of_nat_mult)
qed

lemma floodLoop_rule:
  assumes "I st"
    and inv: "\<And>s. I s \<Longrightarrow> floodInv w h s"
    and step: "\<And>s. I s \<Longrightarrow> head s < length (queue s) \<Longrightarrow> I (floodStep M P w h s)"
  shows "\<exists>st'. floodLoop M P w h st = Some st' \<and> I st' \<and> head st' = length (queue st')"
  using assms(1)
proof (induction "w * h - head st" arbitrary: st rule: less_induct)
  case less
  show ?case
  proof (cases "head st < length (queue st)")
    case False
    moreover have "head st \<le> length (queue st)" using inv [OF less.prems] by (simp add: floodInv_def)
    ultimately have "head st = length (queue st)" by simp
    with False less.prems show ?thesis by (subst floodLoop.simps) simp
  next
    case True
    have "length (queue st) \<le> w * h" using inv [OF less.prems] by (rule queue_bound)
    with True have "w * h - head (floodStep M P w h st) < w * h - head st" by simp
    from less.hyps [OF this step [OF less.prems True]]
    show ?thesis using True by (subst floodLoop.simps) simp
  qed
qed

lemma fold_inv:
  assumes "\<And>a s. a \<in> set as \<Longrightarrow> I s \<Longrightarrow> I (f a s)" and "I s"
  shows "I (fold f as s)"
  using assms by (induction as arbitrary: s) simp_all

lemma seedEdges_inv:
  assumes "floodInv w h st" and "0 < w" and "0 < h"
  shows "floodInv w h (seedEdges M w h st)"
  unfolding seedEdges_def
proof (rule fold_inv [where I = "floodInv w h"])
  show "floodInv w h (fold (\<lambda>x s. addSeed M w (int x) (int h - 1) (addSeed M w (int x) 0 s)) [0..<w] st)"
    using assms by (intro fold_inv [where I = "floodInv w h"] addSeed_inv) simp_all
next
  fix y s assume "y \<in> set [1..<h - 1]" "floodInv w h s"
  then show "floodInv w h (addSeed M w (int w - 1) (int y) (addSeed M w 0 (int y) s))"
    using assms by (intro addSeed_inv) auto
qed

lemma init_inv:
  "floodInv w h \<lparr>fdata = data, visited = replicate (w * h) 0, queue = [], head = 0, touched = []\<rparr>"
  by (simp add: floodInv_def rdb_def truthy_def nat_less_iff del: of_nat_mult)

section \<open>Pixels and their indices\<close>

lemma coords_indexOf:
  assumes "inGrid w h p"
  shows "coords w (indexOf w p) = p"
proof -
  obtain x y where p: "p = (x, y)" by (cases p)
  from assms p have b: "0 \<le> x" "x < int w" by (simp_all add: inGrid_def)
  then have "(y * int w + x) mod int w = x" "(y * int w + x) div int w = y"
    by simp_all
  then show ?thesis by (simp add: p coords_def indexOf_def)
qed

lemma indexOf_bounds:
  assumes "inGrid w h p"
  shows "0 \<le> indexOf w p" and "indexOf w p < int (w * h)"
  using assms cell_index_bounds [of "fst p" w "snd p" h]
  by (simp_all add: inGrid_def indexOf_def)

lemma indexOf_coords:
  assumes "0 < w" and "0 \<le> v" and "v < int (w * h)"
  shows "inGrid w h (coords w v)" and "indexOf w (coords w v) = v"
proof -
  have x: "0 \<le> v mod int w" "v mod int w < int w" using assms(1) by simp_all
  have y0: "0 \<le> v div int w" using assms(1,2) by (simp add: pos_imp_zdiv_nonneg_iff)
  have "v < int h * int w" using assms(3) by (simp add: mult.commute)
  have y1: "v div int w < int h"
  proof (rule ccontr)
    assume "\<not> v div int w < int h"
    then have "int h \<le> v div int w" by simp
    then have "int h * int w \<le> v div int w * int w" by (intro mult_right_mono) simp_all
    moreover have "v div int w * int w + v mod int w = v" by (rule div_mult_mod_eq)
    ultimately show False using \<open>v < int h * int w\<close> x(1) by linarith
  qed
  show "inGrid w h (coords w v)" using x y0 y1 by (simp add: inGrid_def coords_def)
  show "indexOf w (coords w v) = v" by (simp add: indexOf_def coords_def)
qed

lemma jsRem_nonneg: "0 \<le> a \<Longrightarrow> jsRem a (int w) = a mod int w"
  by (cases "a = 0") (simp_all add: jsRem_def)

lemma matchesAt_coords:
  assumes "0 < w" and "0 \<le> v" and "v < int (w * h)"
  shows "matchesAt t thr w data (coords w v) = matches t thr data (v * 4)"
  using indexOf_coords(2) [OF assms] by (simp add: matchesAt_def indexOf_def)

lemma pixelAt_coords: "pixelAt w data p = quad data (indexOf w p * 4)"
  by (simp add: pixelAt_def indexOf_def)

section \<open>The flood fill of the export path keeps its invariant\<close>

lemma keyInv_test:
  assumes "keyInv t thr k w h data0 st" and "0 < w" and "0 \<le> v" and "v < int (w * h)"
    and "\<not> truthy (rdb (visited st) v)"
  shows "matches t thr (fdata st) (v * 4) = matchesAt t thr w data0 (coords w v)"
proof -
  from assms(1) have fi: "floodInv w h st"
    and q: "\<forall>u. 0 \<le> u \<and> u < int (w * h) \<longrightarrow>
             quad (fdata st) (u * 4)
             = (if u \<in> set (take (head st) (queue st)) then keyPixel k else quad data0 (u * 4))"
    unfolding keyInv_def by blast+
  from fi have "\<forall>u\<in>set (queue st). truthy (rdb (visited st) u)"
    unfolding floodInv_def by blast
  with assms(5) have "v \<notin> set (queue st)" by blast
  then have "v \<notin> set (take (head st) (queue st))" by (blast dest: in_set_takeD)
  with q assms(3,4) have "quad (fdata st) (v * 4) = quad data0 (v * 4)" by simp
  then have "matches t thr (fdata st) (v * 4) = matches t thr data0 (v * 4)"
    by (rule matches_quad)
  then show ?thesis by (simp add: matchesAt_coords [OF assms(2,3,4)])
qed

lemma keyInv_push:
  "keyInv t thr k w h data0 (st\<lparr>visited := vs, queue := qs, touched := ts\<rparr>)
   \<longleftrightarrow> (floodInv w h (st\<lparr>visited := vs, queue := qs, touched := ts\<rparr>)
      \<and> length (fdata st) = length data0
      \<and> (\<forall>v. 0 \<le> v \<and> v < int (w * h) \<longrightarrow>
             quad (fdata st) (v * 4)
             = (if v \<in> set (take (head st) qs) then keyPixel k else quad data0 (v * 4)))
      \<and> (\<forall>v\<in>set qs. reachable w h (matchesAt t thr w data0) (coords w v)))"
  by (simp add: keyInv_def)

lemma keyInv_touch:
  "keyInv t thr k w h data0 (st\<lparr>touched := ts\<rparr>)
   \<longleftrightarrow> (floodInv w h (st\<lparr>touched := ts\<rparr>)
      \<and> length (fdata st) = length data0
      \<and> (\<forall>v. 0 \<le> v \<and> v < int (w * h) \<longrightarrow>
             quad (fdata st) (v * 4)
             = (if v \<in> set (take (head st) (queue st)) then keyPixel k else quad data0 (v * 4)))
      \<and> (\<forall>v\<in>set (queue st). reachable w h (matchesAt t thr w data0) (coords w v)))"
  by (simp add: keyInv_def)

lemma probe_keyInv:
  assumes "keyInv t thr k w h data0 st" and "0 < w" and "0 \<le> v" and "v < int (w * h)"
    and just: "matchesAt t thr w data0 (coords w v)
               \<Longrightarrow> reachable w h (matchesAt t thr w data0) (coords w v)"
  shows "keyInv t thr k w h data0 (probe (matches t thr) v st)"
proof (cases "truthy (rdb (visited st) v)")
  case True
  then have "probe (matches t thr) v st = st" by (simp add: probe_def)
  then show ?thesis using assms(1) by simp
next
  case False
  from assms(1) have fi: "floodInv w h st"
    and len: "length (fdata st) = length data0"
    and q: "\<forall>u. 0 \<le> u \<and> u < int (w * h) \<longrightarrow>
             quad (fdata st) (u * 4)
             = (if u \<in> set (take (head st) (queue st)) then keyPixel k else quad data0 (u * 4))"
    and r: "\<forall>u\<in>set (queue st). reachable w h (matchesAt t thr w data0) (coords w u)"
    unfolding keyInv_def by blast+
  have fi': "floodInv w h (probe (matches t thr) v st)"
    using fi assms(3,4) by (rule probe_inv)
  show ?thesis
  proof (cases "matches t thr (fdata st) (v * 4)")
    case no: False
    with False have eq: "probe (matches t thr) v st = st\<lparr>touched := touched st @ [v * 4]\<rparr>"
      by (simp add: probe_def)
    show ?thesis
      using fi' unfolding eq keyInv_touch by (intro conjI len q r)
  next
    case yes: True
    with False have eq: "probe (matches t thr) v st
        = st\<lparr>visited := wrb (visited st) v 1, queue := queue st @ [v],
              touched := touched st @ [v * 4]\<rparr>"
      by (simp add: probe_def)
    from fi have "head st \<le> length (queue st)" unfolding floodInv_def by blast
    then have tk: "take (head st) (queue st @ [v]) = take (head st) (queue st)" by simp
    have "matchesAt t thr w data0 (coords w v)"
      using keyInv_test [OF assms(1,2,3,4) False] yes by simp
    then have "reachable w h (matchesAt t thr w data0) (coords w v)" by (rule just)
    with r have r': "\<forall>u\<in>set (queue st @ [v]). reachable w h (matchesAt t thr w data0) (coords w u)"
      by simp
    have q': "\<forall>u. 0 \<le> u \<and> u < int (w * h) \<longrightarrow>
             quad (fdata st) (u * 4)
             = (if u \<in> set (take (head st) (queue st @ [v])) then keyPixel k
                else quad data0 (u * 4))"
      unfolding tk by (rule q)
    show ?thesis
      using fi' unfolding eq keyInv_push by (intro conjI len q' r')
  qed
qed

lemma probe_covers:
  assumes "keyInv t thr k w h data0 st" and "0 < w" and "0 \<le> v" and "v < int (w * h)"
    and "matchesAt t thr w data0 (coords w v)"
  shows "v \<in> set (queue (probe (matches t thr) v st))"
proof (cases "truthy (rdb (visited st) v)")
  case True
  from assms(1) have "\<forall>u. 0 \<le> u \<and> u < int (w * h) \<and> truthy (rdb (visited st) u)
                        \<longrightarrow> u \<in> set (queue st)"
    unfolding keyInv_def floodInv_def by blast
  with True assms(3,4) have "v \<in> set (queue st)" by blast
  then show ?thesis using probe_queue_mono by blast
next
  case False
  then have "matches t thr (fdata st) (v * 4)"
    using keyInv_test [OF assms(1,2,3,4)] assms(5) by simp
  with False show ?thesis by (simp add: probe_def)
qed

lemma keyInv_advance:
  "keyInv t thr k w h data0 (st\<lparr>head := n, fdata := d, touched := ts\<rparr>)
   \<longleftrightarrow> (floodInv w h (st\<lparr>head := n, fdata := d, touched := ts\<rparr>)
      \<and> length d = length data0
      \<and> (\<forall>v. 0 \<le> v \<and> v < int (w * h) \<longrightarrow>
             quad d (v * 4)
             = (if v \<in> set (take n (queue st)) then keyPixel k else quad data0 (v * 4)))
      \<and> (\<forall>v\<in>set (queue st). reachable w h (matchesAt t thr w data0) (coords w v)))"
  by (simp add: keyInv_def)

lemma advance_keyInv:
  assumes "keyInv t thr k w h data0 st" and "head st < length (queue st)"
    and "length data0 = 4 * (w * h)"
  shows "keyInv t thr k w h data0
           (st\<lparr>head := head st + 1, fdata := paintKey k (fdata st) (queue st ! head st * 4),
               touched := touched st @ [queue st ! head st * 4]\<rparr>)"
proof -
  let ?u = "queue st ! head st"
  let ?d = "paintKey k (fdata st) (?u * 4)"
  from assms(1) have fi: "floodInv w h st"
    and len: "length (fdata st) = length data0"
    and q: "\<forall>v. 0 \<le> v \<and> v < int (w * h) \<longrightarrow>
             quad (fdata st) (v * 4)
             = (if v \<in> set (take (head st) (queue st)) then keyPixel k else quad data0 (v * 4))"
    and r: "\<forall>v\<in>set (queue st). reachable w h (matchesAt t thr w data0) (coords w v)"
    unfolding keyInv_def by blast+
  have "?u \<in> set (queue st)" using assms(2) by simp
  with fi have u: "0 \<le> ?u" "?u < int (w * h)" unfolding floodInv_def by blast+
  have tk: "set (take (Suc (head st)) (queue st)) = insert ?u (set (take (head st) (queue st)))"
    using assms(2) by (simp add: take_Suc_conv_app_nth)
  have len': "length ?d = length data0" using len by simp
  have inb: "0 \<le> ?u * 4" "?u * 4 + 3 < int (length (fdata st))"
    using u len assms(3) by simp_all
  have q': "\<forall>v. 0 \<le> v \<and> v < int (w * h) \<longrightarrow>
             quad ?d (v * 4)
             = (if v \<in> set (take (head st + 1) (queue st)) then keyPixel k
                else quad data0 (v * 4))"
  proof (intro allI impI)
    fix v assume v: "0 \<le> v \<and> v < int (w * h)"
    show "quad ?d (v * 4)
          = (if v \<in> set (take (head st + 1) (queue st)) then keyPixel k else quad data0 (v * 4))"
    proof (cases "v = ?u")
      case True
      have "quad ?d (?u * 4) = keyPixel k" using inb by (rule quad_paintKey_same)
      then show ?thesis using True by (simp add: tk)
    next
      case False
      then have "v * 4 + 3 < ?u * 4 \<or> ?u * 4 + 3 < v * 4" by auto
      then have "quad ?d (v * 4) = quad (fdata st) (v * 4)" by (rule quad_paintKey_other)
      then show ?thesis using q v False by (simp add: tk)
    qed
  qed
  show ?thesis
    unfolding keyInv_advance
    by (intro conjI advance_inv [OF fi assms(2)] len' q' r)
qed

lemma floodStep_neighbours:
  assumes "0 \<le> queue st ! head st"
  shows "floodStep M P w h st
         = fold (visit M w h) (neighbours (coords w (queue st ! head st)))
             (st\<lparr>head := head st + 1, fdata := P (fdata st) (queue st ! head st * 4),
                 touched := touched st @ [queue st ! head st * 4]\<rparr>)"
  using assms by (simp add: floodStep_def Let_def neighbours_def coords_def jsRem_nonneg)

lemma visit_index:
  "visit M w h n st = (if inGrid w h n then probe M (indexOf w n) st else st)"
  by (cases n) (simp add: visit_probe inGrid_def indexOf_def)

lemma visit_keyInv:
  assumes "keyInv t thr k w h data0 st" and "0 < w"
    and "inGrid w h n \<Longrightarrow> matchesAt t thr w data0 n
         \<Longrightarrow> reachable w h (matchesAt t thr w data0) n"
  shows "keyInv t thr k w h data0 (visit (matches t thr) w h n st)"
proof (cases "inGrid w h n")
  case False
  then show ?thesis using assms(1) by (simp add: visit_index)
next
  case True
  note b = indexOf_bounds [OF True]
  have c: "coords w (indexOf w n) = n" using True by (rule coords_indexOf)
  have "keyInv t thr k w h data0 (probe (matches t thr) (indexOf w n) st)"
    using assms(1,2) b
  proof (rule probe_keyInv)
    assume "matchesAt t thr w data0 (coords w (indexOf w n))"
    then show "reachable w h (matchesAt t thr w data0) (coords w (indexOf w n))"
      unfolding c using assms(3) True by blast
  qed
  then show ?thesis using True by (simp add: visit_index)
qed

lemma visit_covers:
  assumes "keyInv t thr k w h data0 st" and "0 < w"
    and "inGrid w h n" and "matchesAt t thr w data0 n"
  shows "indexOf w n \<in> set (queue (visit (matches t thr) w h n st))"
proof -
  note b = indexOf_bounds [OF assms(3)]
  have c: "coords w (indexOf w n) = n" using assms(3) by (rule coords_indexOf)
  have "indexOf w n \<in> set (queue (probe (matches t thr) (indexOf w n) st))"
    using assms(1,2) b by (rule probe_covers) (simp add: c assms(4))
  then show ?thesis using assms(3) by (simp add: visit_index)
qed

lemma visits_keyInv:
  assumes "keyInv t thr k w h data0 st" and "0 < w"
    and "\<And>n. n \<in> set ns \<Longrightarrow> inGrid w h n \<Longrightarrow> matchesAt t thr w data0 n
         \<Longrightarrow> reachable w h (matchesAt t thr w data0) n"
  shows "keyInv t thr k w h data0 (fold (visit (matches t thr) w h) ns st)"
  using assms(1,3)
proof (induction ns arbitrary: st)
  case Nil
  then show ?case by simp
next
  case (Cons n ns)
  have "keyInv t thr k w h data0 (visit (matches t thr) w h n st)"
    using Cons.prems(1) assms(2) by (rule visit_keyInv) (simp add: Cons.prems(2))
  then show ?case using Cons.IH Cons.prems(2) by simp
qed

lemma visits_cover:
  assumes "keyInv t thr k w h data0 st" and "0 < w"
    and "\<And>n. n \<in> set ns \<Longrightarrow> inGrid w h n \<Longrightarrow> matchesAt t thr w data0 n
         \<Longrightarrow> reachable w h (matchesAt t thr w data0) n"
    and "q \<in> set ns" and "inGrid w h q" and "matchesAt t thr w data0 q"
  shows "indexOf w q \<in> set (queue (fold (visit (matches t thr) w h) ns st))"
  using assms(1,3,4)
proof (induction ns arbitrary: st)
  case Nil
  then show ?case by simp
next
  case (Cons n ns)
  have inv: "keyInv t thr k w h data0 (visit (matches t thr) w h n st)"
    using Cons.prems(1) assms(2) by (rule visit_keyInv) (simp add: Cons.prems(2))
  show ?case
  proof (cases "q = n")
    case True
    have "indexOf w q \<in> set (queue (visit (matches t thr) w h n st))"
      unfolding True using Cons.prems(1) assms(2) assms(5,6) [unfolded True]
      by (rule visit_covers)
    then show ?thesis using visits_queue_mono by fastforce
  next
    case False
    with Cons.prems(3) have "q \<in> set ns" by simp
    from Cons.IH [OF inv _ this] Cons.prems(2) show ?thesis by simp
  qed
qed

lemma probe_queue_prefix: "\<exists>more. queue (probe M v st) = queue st @ more"
  using probe_queue [of M v st] by auto

lemma visit_queue_prefix: "\<exists>more. queue (visit M w h n st) = queue st @ more"
proof (cases "inGrid w h n")
  case True
  then show ?thesis using probe_queue_prefix [of M "indexOf w n" st] by (simp add: visit_index)
next
  case False
  then show ?thesis by (simp add: visit_index)
qed

lemma visits_queue_prefix: "\<exists>more. queue (fold (visit M w h) ns st) = queue st @ more"
proof (induction ns arbitrary: st)
  case Nil
  show ?case by simp
next
  case (Cons n ns)
  obtain a where a: "queue (visit M w h n st) = queue st @ a"
    using visit_queue_prefix by blast
  from Cons.IH [of "visit M w h n st"] obtain b
    where "queue (fold (visit M w h) ns (visit M w h n st)) = queue (visit M w h n st) @ b"
    by blast
  then show ?case by (simp add: a)
qed

lemma floodStep_keyLoopInv:
  assumes "keyLoopInv t thr k w h data0 st" and "head st < length (queue st)"
    and "0 < w" and "length data0 = 4 * (w * h)"
  shows "keyLoopInv t thr k w h data0 (floodStep (matches t thr) (paintKey k) w h st)"
proof -
  let ?T = "matchesAt t thr w data0"
  let ?u = "queue st ! head st"
  let ?st1 = "st\<lparr>head := head st + 1, fdata := paintKey k (fdata st) (?u * 4),
                  touched := touched st @ [?u * 4]\<rparr>"
  let ?st' = "floodStep (matches t thr) (paintKey k) w h st"
  from assms(1) have ki: "keyInv t thr k w h data0 st"
    and se: "seeded w h ?T st" and cl: "closedUpTo w h ?T st"
    unfolding keyLoopInv_def by blast+
  from ki have fi: "floodInv w h st"
    and r: "\<forall>v\<in>set (queue st). reachable w h ?T (coords w v)"
    unfolding keyInv_def by blast+
  have uq: "?u \<in> set (queue st)" using assms(2) by simp
  with fi have u: "0 \<le> ?u" "?u < int (w * h)" unfolding floodInv_def by blast+
  from uq r have ru: "reachable w h ?T (coords w ?u)" by blast
  have step: "?st' = fold (visit (matches t thr) w h) (neighbours (coords w ?u)) ?st1"
    using u(1) by (rule floodStep_neighbours)
  have ki1: "keyInv t thr k w h data0 ?st1"
    using ki assms(2,4) by (rule advance_keyInv)
  have just: "reachable w h ?T n"
    if "n \<in> set (neighbours (coords w ?u))" "inGrid w h n" "?T n" for n
    using ru that by (rule reachable.grow)
  have ki': "keyInv t thr k w h data0 ?st'"
    unfolding step using ki1 assms(3) just by (rule visits_keyInv)
  have mono: "set (queue st) \<subseteq> set (queue ?st')"
    unfolding step using visits_queue_mono [of ?st1] by simp
  have se': "seeded w h ?T ?st'"
    using se mono unfolding seeded_def by blast
  obtain more where "queue ?st' = queue ?st1 @ more"
    unfolding step using visits_queue_prefix by blast
  then have pre: "queue ?st' = queue st @ more" by simp
  have tk: "set (take (head ?st') (queue ?st')) = insert ?u (set (take (head st) (queue st)))"
    using assms(2) by (simp add: pre take_Suc_conv_app_nth)
  have cl': "closedUpTo w h ?T ?st'"
    unfolding closedUpTo_def tk
  proof (intro ballI impI)
    fix v q
    assume v: "v \<in> insert ?u (set (take (head st) (queue st)))"
      and q: "q \<in> set (neighbours (coords w v))" and g: "inGrid w h q \<and> ?T q"
    show "indexOf w q \<in> set (queue ?st')"
    proof (cases "v = ?u")
      case True
      show ?thesis
        unfolding step using ki1 assms(3) just q [unfolded True] g
        by (intro visits_cover) blast+
    next
      case False
      with v have "v \<in> set (take (head st) (queue st))" by simp
      with cl q g have "indexOf w q \<in> set (queue st)" unfolding closedUpTo_def by blast
      with mono show ?thesis by blast
    qed
  qed
  from ki' se' cl' show ?thesis unfolding keyLoopInv_def by blast
qed

section \<open>Seeding\<close>

lemma addSeed_index: "addSeed M w x y st = probe M (indexOf w (x, y)) st"
  by (simp add: addSeed_probe indexOf_def)

lemma addSeed_keyInv:
  assumes "keyInv t thr k w h data0 st" and "0 < w" and "onBorder w h (x, y)"
  shows "keyInv t thr k w h data0 (addSeed (matches t thr) w x y st)"
proof -
  from assms(3) have g: "inGrid w h (x, y)" by (simp add: onBorder_def)
  note b = indexOf_bounds [OF g]
  have c: "coords w (indexOf w (x, y)) = (x, y)" using g by (rule coords_indexOf)
  show ?thesis
    unfolding addSeed_index using assms(1,2) b
  proof (rule probe_keyInv)
    assume "matchesAt t thr w data0 (coords w (indexOf w (x, y)))"
    then show "reachable w h (matchesAt t thr w data0) (coords w (indexOf w (x, y)))"
      unfolding c using assms(3) by (intro reachable.seed)
  qed
qed

lemma addSeed_covers:
  assumes "keyInv t thr k w h data0 st" and "0 < w" and "inGrid w h (x, y)"
    and "matchesAt t thr w data0 (x, y)"
  shows "indexOf w (x, y) \<in> set (queue (addSeed (matches t thr) w x y st))"
proof -
  note b = indexOf_bounds [OF assms(3)]
  have c: "coords w (indexOf w (x, y)) = (x, y)" using assms(3) by (rule coords_indexOf)
  show ?thesis
    unfolding addSeed_index using assms(1,2) b by (rule probe_covers) (simp add: c assms(4))
qed

lemma addSeed_queue_mono: "set (queue st) \<subseteq> set (queue (addSeed M w x y st))"
  unfolding addSeed_probe by (rule probe_queue_mono)

lemma addSeed_head [simp]: "head (addSeed M w x y st) = head st"
  by (simp add: addSeed_probe)

text \<open>One turn of a seeding loop handles two border pixels.\<close>

lemma seed_pair:
  assumes "keyInv t thr k w h data0 st" and "0 < w"
    and "onBorder w h p" and "onBorder w h q"
  shows "keyInv t thr k w h data0
           (addSeed (matches t thr) w (fst q) (snd q) (addSeed (matches t thr) w (fst p) (snd p) st))"
    and "set (queue st)
         \<subseteq> set (queue (addSeed (matches t thr) w (fst q) (snd q)
                          (addSeed (matches t thr) w (fst p) (snd p) st)))"
    and "matchesAt t thr w data0 p \<Longrightarrow>
         indexOf w p \<in> set (queue (addSeed (matches t thr) w (fst q) (snd q)
                          (addSeed (matches t thr) w (fst p) (snd p) st)))"
    and "matchesAt t thr w data0 q \<Longrightarrow>
         indexOf w q \<in> set (queue (addSeed (matches t thr) w (fst q) (snd q)
                          (addSeed (matches t thr) w (fst p) (snd p) st)))"
    and "head (addSeed (matches t thr) w (fst q) (snd q)
                 (addSeed (matches t thr) w (fst p) (snd p) st)) = head st"
proof -
  let ?s1 = "addSeed (matches t thr) w (fst p) (snd p) st"
  let ?s2 = "addSeed (matches t thr) w (fst q) (snd q) ?s1"
  have bp: "onBorder w h (fst p, snd p)" "onBorder w h (fst q, snd q)"
    using assms(3,4) by simp_all
  have k1: "keyInv t thr k w h data0 ?s1"
    using assms(1,2) bp(1) by (rule addSeed_keyInv)
  show k2: "keyInv t thr k w h data0 ?s2"
    using k1 assms(2) bp(2) by (rule addSeed_keyInv)
  have m1: "set (queue st) \<subseteq> set (queue ?s1)" by (rule addSeed_queue_mono)
  have m2: "set (queue ?s1) \<subseteq> set (queue ?s2)" by (rule addSeed_queue_mono)
  from m1 m2 show "set (queue st) \<subseteq> set (queue ?s2)" by blast
  have gp: "inGrid w h (fst p, snd p)" "inGrid w h (fst q, snd q)"
    using assms(3,4) by (simp_all add: onBorder_def)
  show "indexOf w p \<in> set (queue ?s2)" if "matchesAt t thr w data0 p"
  proof -
    have "indexOf w (fst p, snd p) \<in> set (queue ?s1)"
      using assms(1,2) gp(1) by (rule addSeed_covers) (simp add: that)
    with m2 show ?thesis by auto
  qed
  show "indexOf w q \<in> set (queue ?s2)" if "matchesAt t thr w data0 q"
  proof -
    have "indexOf w (fst q, snd q) \<in> set (queue ?s2)"
      using k1 assms(2) gp(2) by (rule addSeed_covers) (simp add: that)
    then show ?thesis by simp
  qed
  show "head ?s2 = head st" by simp
qed

lemma seed_loop:
  assumes "keyInv t thr k w h data0 st" and "0 < w"
    and "\<And>a. a \<in> set as \<Longrightarrow> onBorder w h (p a) \<and> onBorder w h (q a)"
  shows "keyInv t thr k w h data0
           (fold (\<lambda>a s. addSeed (matches t thr) w (fst (q a)) (snd (q a))
                          (addSeed (matches t thr) w (fst (p a)) (snd (p a)) s)) as st)
         \<and> set (queue st)
           \<subseteq> set (queue (fold (\<lambda>a s. addSeed (matches t thr) w (fst (q a)) (snd (q a))
                          (addSeed (matches t thr) w (fst (p a)) (snd (p a)) s)) as st))
         \<and> head (fold (\<lambda>a s. addSeed (matches t thr) w (fst (q a)) (snd (q a))
                          (addSeed (matches t thr) w (fst (p a)) (snd (p a)) s)) as st) = head st
         \<and> (\<forall>a\<in>set as.
              (matchesAt t thr w data0 (p a) \<longrightarrow> indexOf w (p a)
                 \<in> set (queue (fold (\<lambda>a s. addSeed (matches t thr) w (fst (q a)) (snd (q a))
                          (addSeed (matches t thr) w (fst (p a)) (snd (p a)) s)) as st)))
              \<and> (matchesAt t thr w data0 (q a) \<longrightarrow> indexOf w (q a)
                 \<in> set (queue (fold (\<lambda>a s. addSeed (matches t thr) w (fst (q a)) (snd (q a))
                          (addSeed (matches t thr) w (fst (p a)) (snd (p a)) s)) as st))))"
  using assms(1,3)
proof (induction as arbitrary: st)
  case Nil
  then show ?case by simp
next
  case (Cons a as)
  let ?f = "\<lambda>a s. addSeed (matches t thr) w (fst (q a)) (snd (q a))
                          (addSeed (matches t thr) w (fst (p a)) (snd (p a)) s)"
  let ?s = "?f a st"
  from Cons.prems(2) [of a] have bo: "onBorder w h (p a)" "onBorder w h (q a)" by simp_all
  note one = seed_pair [OF Cons.prems(1) assms(2) bo]
  have rest: "\<And>b. b \<in> set as \<Longrightarrow> onBorder w h (p b) \<and> onBorder w h (q b)"
    using Cons.prems(2) by simp
  note ih = Cons.IH [OF one(1) rest]
  from ih have k: "keyInv t thr k w h data0 (fold ?f as ?s)"
    and m: "set (queue ?s) \<subseteq> set (queue (fold ?f as ?s))"
    and hd: "head (fold ?f as ?s) = head ?s"
    and cv: "\<forall>b\<in>set as.
              (matchesAt t thr w data0 (p b) \<longrightarrow> indexOf w (p b) \<in> set (queue (fold ?f as ?s)))
              \<and> (matchesAt t thr w data0 (q b) \<longrightarrow> indexOf w (q b) \<in> set (queue (fold ?f as ?s)))"
    by blast+
  have m': "set (queue st) \<subseteq> set (queue (fold ?f as ?s))" using one(2) m by blast
  have hd': "head (fold ?f as ?s) = head st" using hd one(5) by simp
  have here: "(matchesAt t thr w data0 (p a) \<longrightarrow> indexOf w (p a) \<in> set (queue (fold ?f as ?s)))
              \<and> (matchesAt t thr w data0 (q a) \<longrightarrow> indexOf w (q a) \<in> set (queue (fold ?f as ?s)))"
    using one(3,4) m by blast
  have cv': "\<forall>b\<in>set (a # as).
              (matchesAt t thr w data0 (p b) \<longrightarrow> indexOf w (p b) \<in> set (queue (fold ?f as ?s)))
              \<and> (matchesAt t thr w data0 (q b) \<longrightarrow> indexOf w (q b) \<in> set (queue (fold ?f as ?s)))"
    using here cv by simp
  show ?case
    unfolding fold_simps by (intro conjI k m' hd' cv')
qed

lemma init_keyInv:
  "keyInv t thr k w h data
     \<lparr>fdata = data, visited = replicate (w * h) 0, queue = [], head = 0, touched = []\<rparr>"
  unfolding keyInv_def using init_inv [of w h data] by simp

lemma seedEdges_keyLoopInv:
  assumes "0 < w" and "0 < h"
  shows "keyLoopInv t thr k w h data
           (seedEdges (matches t thr) w h
              \<lparr>fdata = data, visited = replicate (w * h) 0, queue = [], head = 0, touched = []\<rparr>)"
proof -
  let ?T = "matchesAt t thr w data"
  let ?M = "matches t thr"
  let ?s0 = "\<lparr>fdata = data, visited = replicate (w * h) 0, queue = [], head = 0, touched = []\<rparr>"
  let ?s1 = "fold (\<lambda>x s. addSeed ?M w (int x) (int h - 1) (addSeed ?M w (int x) 0 s)) [0..<w] ?s0"
  let ?s2 = "fold (\<lambda>y s. addSeed ?M w (int w - 1) (int y) (addSeed ?M w 0 (int y) s)) [1..<h - 1] ?s1"
  have b1: "onBorder w h (int a, 0) \<and> onBorder w h (int a, int h - 1)" if "a \<in> set [0..<w]" for a
    using that assms by (simp add: onBorder_def inGrid_def)
  have b2: "onBorder w h (0, int a) \<and> onBorder w h (int w - 1, int a)" if "a \<in> set [1..<h - 1]" for a
    using that assms by (auto simp: onBorder_def inGrid_def)
  from seed_loop [OF init_keyInv assms(1), of "[0..<w]" h "\<lambda>a. (int a, 0)" "\<lambda>a. (int a, int h - 1)"
      t thr k data] b1
  have k1: "keyInv t thr k w h data ?s1" and h1: "head ?s1 = 0"
    and c1: "\<forall>a\<in>set [0..<w].
              (?T (int a, 0) \<longrightarrow> indexOf w (int a, 0) \<in> set (queue ?s1))
              \<and> (?T (int a, int h - 1) \<longrightarrow> indexOf w (int a, int h - 1) \<in> set (queue ?s1))"
    by simp_all
  from seed_loop [OF k1 assms(1), of "[1..<h - 1]" "\<lambda>a. (0, int a)" "\<lambda>a. (int w - 1, int a)"] b2
  have k2: "keyInv t thr k w h data ?s2" and h2: "head ?s2 = head ?s1"
    and m2: "set (queue ?s1) \<subseteq> set (queue ?s2)"
    and c2: "\<forall>a\<in>set [1..<h - 1].
              (?T (0, int a) \<longrightarrow> indexOf w (0, int a) \<in> set (queue ?s2))
              \<and> (?T (int w - 1, int a) \<longrightarrow> indexOf w (int w - 1, int a) \<in> set (queue ?s2))"
    by simp_all
  have se: "seeded w h ?T ?s2"
    unfolding seeded_def
  proof (intro allI impI)
    fix p assume p: "onBorder w h p \<and> ?T p"
    obtain x y where xy: "p = (x, y)" by (cases p)
    from p xy have g: "0 \<le> x" "x < int w" "0 \<le> y" "y < int h"
      and e: "x = 0 \<or> x = int w - 1 \<or> y = 0 \<or> y = int h - 1"
      by (simp_all add: onBorder_def inGrid_def)
    have xn: "x = int (nat x)" "nat x \<in> set [0..<w]" using g by simp_all
    show "indexOf w p \<in> set (queue ?s2)"
    proof (cases "y = 0 \<or> y = int h - 1")
      case True
      from c1 xn(2) have
        "(?T (int (nat x), 0) \<longrightarrow> indexOf w (int (nat x), 0) \<in> set (queue ?s1))
         \<and> (?T (int (nat x), int h - 1) \<longrightarrow> indexOf w (int (nat x), int h - 1) \<in> set (queue ?s1))"
        by blast
      with True p xy xn(1) have "indexOf w p \<in> set (queue ?s1)" by auto
      with m2 show ?thesis by blast
    next
      case False
      with g have yn: "y = int (nat y)" "nat y \<in> set [1..<h - 1]" by auto
      from c2 yn(2) have
        "(?T (0, int (nat y)) \<longrightarrow> indexOf w (0, int (nat y)) \<in> set (queue ?s2))
         \<and> (?T (int w - 1, int (nat y)) \<longrightarrow> indexOf w (int w - 1, int (nat y)) \<in> set (queue ?s2))"
        by blast
      with False e p xy yn(1) show ?thesis by auto
    qed
  qed
  have cl: "closedUpTo w h ?T ?s2"
    unfolding closedUpTo_def using h1 h2 by simp
  from k2 se cl show ?thesis
    unfolding keyLoopInv_def seedEdges_def by blast
qed

lemma applyFloodFill_result:
  assumes "0 < w" and "0 < h" and "length data = 4 * (w * h)"
  shows "\<exists>st. applyFloodFill data w h t k thr = Some st
              \<and> keyLoopInv t thr k w h data st \<and> head st = length (queue st)"
  unfolding applyFloodFill_def floodFrom_def
proof (rule floodLoop_rule [where I = "keyLoopInv t thr k w h data"])
  show "keyLoopInv t thr k w h data
          (seedEdges (matches t thr) w h
             \<lparr>fdata = data, visited = replicate (w * h) 0, queue = [], head = 0, touched = []\<rparr>)"
    using assms(1,2) by (rule seedEdges_keyLoopInv)
next
  fix s assume "keyLoopInv t thr k w h data s"
  then show "floodInv w h s" unfolding keyLoopInv_def keyInv_def by blast
next
  fix s assume "keyLoopInv t thr k w h data s" "head s < length (queue s)"
  then show "keyLoopInv t thr k w h data (floodStep (matches t thr) (paintKey k) w h s)"
    using assms(1,3) by (rule floodStep_keyLoopInv)
qed

section \<open>The queue at the end is the reachable set\<close>

lemma reachable_inGrid: "reachable w h T p \<Longrightarrow> inGrid w h p"
  by (induction rule: reachable.induct) (simp_all add: onBorder_def)

lemma reachable_matches: "reachable w h T p \<Longrightarrow> T p"
  by (induction rule: reachable.induct) simp_all

lemma reachable_queued:
  assumes "keyLoopInv t thr k w h data st" and "head st = length (queue st)"
    and "reachable w h (matchesAt t thr w data) p"
  shows "indexOf w p \<in> set (queue st)"
  using assms(3)
proof (induction rule: reachable.induct)
  case (seed p)
  with assms(1) show ?case unfolding keyLoopInv_def seeded_def by blast
next
  case (grow p q)
  from grow.hyps(1) have "inGrid w h p" by (rule reachable_inGrid)
  then have c: "coords w (indexOf w p) = p" by (rule coords_indexOf)
  from assms(1) have "closedUpTo w h (matchesAt t thr w data) st"
    unfolding keyLoopInv_def by blast
  then have "\<forall>u\<in>set (queue st). \<forall>q\<in>set (neighbours (coords w u)).
        inGrid w h q \<and> matchesAt t thr w data q \<longrightarrow> indexOf w q \<in> set (queue st)"
    unfolding closedUpTo_def using assms(2) by simp
  with grow.IH grow.hyps(2,3,4) c show ?case by fastforce
qed

lemma flood_pixels:
  assumes "keyLoopInv t thr k w h data st" and "head st = length (queue st)"
    and "0 < w" and "inGrid w h p"
  shows "pixelAt w (fdata st) p
         = (if reachable w h (matchesAt t thr w data) p then keyPixel k else pixelAt w data p)"
proof -
  let ?T = "matchesAt t thr w data"
  note b = indexOf_bounds [OF assms(4)]
  have c: "coords w (indexOf w p) = p" using assms(4) by (rule coords_indexOf)
  from assms(1) have q: "\<forall>v. 0 \<le> v \<and> v < int (w * h) \<longrightarrow>
             quad (fdata st) (v * 4)
             = (if v \<in> set (take (head st) (queue st)) then keyPixel k else quad data (v * 4))"
    and r: "\<forall>v\<in>set (queue st). reachable w h ?T (coords w v)"
    unfolding keyLoopInv_def keyInv_def by blast+
  have iff: "indexOf w p \<in> set (queue st) \<longleftrightarrow> reachable w h ?T p"
  proof
    assume "indexOf w p \<in> set (queue st)"
    with r have "reachable w h ?T (coords w (indexOf w p))" by blast
    then show "reachable w h ?T p" by (simp add: c)
  next
    assume "reachable w h ?T p"
    with assms(1,2) show "indexOf w p \<in> set (queue st)" by (rule reachable_queued)
  qed
  from q b have "quad (fdata st) (indexOf w p * 4)
             = (if indexOf w p \<in> set (take (head st) (queue st)) then keyPixel k
                else quad data (indexOf w p * 4))" by blast
  then show ?thesis
    using iff by (simp add: pixelAt_coords assms(2))
qed

lemma neighbours_sym: "q \<in> set (neighbours p) \<Longrightarrow> p \<in> set (neighbours q)"
  by (cases p; cases q) (auto simp: neighbours_def)

lemma enclosed_unreachable:
  assumes "reachable w h T p"
    and "\<forall>p\<in>R. \<not> onBorder w h p \<and> (\<forall>q\<in>set (neighbours p). inGrid w h q \<and> q \<notin> R \<longrightarrow> \<not> T q)"
  shows "p \<notin> R"
  using assms(1)
proof (induction rule: reachable.induct)
  case (seed p)
  with assms(2) show ?case by blast
next
  case (grow p q)
  show ?case
  proof
    assume "q \<in> R"
    moreover have "p \<in> set (neighbours q)" using grow.hyps(2) by (rule neighbours_sym)
    moreover have "inGrid w h p" using grow.hyps(1) by (rule reachable_inGrid)
    moreover have "T p" using grow.hyps(1) by (rule reachable_matches)
    ultimately show False using assms(2) grow.IH by blast
  qed
qed

lemma addSeed_fdata [simp]: "fdata (addSeed M w x y st) = fdata st"
  by (simp add: addSeed_probe)

lemma seedEdges_fdata [simp]: "fdata (seedEdges M w h st) = fdata st"
proof -
  have a: "fdata (fold (\<lambda>x s. addSeed M w (f x) (g x) (addSeed M w (f' x) (g' x) s)) xs s0) = fdata s0"
    for f g f' g' :: "nat \<Rightarrow> int" and xs s0
    by (induction xs arbitrary: s0) simp_all
  show ?thesis unfolding seedEdges_def by (simp add: a)
qed

lemma floodStep_fdata:
  "fdata (floodStep M P w h st) = P (fdata st) (queue st ! head st * 4)"
  by (simp add: floodStep_def Let_def)

lemma floodFrom_bounded:
  assumes "0 < w" and "0 < h" and "\<And>d i. length (P d i) = length d"
  shows "\<exists>st. floodFrom M P w h data = Some st \<and> floodInv w h st
              \<and> length (fdata st) = length data \<and> head st = length (queue st)"
proof -
  let ?I = "\<lambda>s. floodInv w h s \<and> length (fdata s) = length data"
  let ?s0 = "\<lparr>fdata = data, visited = replicate (w * h) 0, queue = [], head = 0, touched = []\<rparr>"
  have "\<exists>st. floodLoop M P w h (seedEdges M w h ?s0) = Some st \<and> ?I st
              \<and> head st = length (queue st)"
  proof (rule floodLoop_rule [where I = ?I])
    show "?I (seedEdges M w h ?s0)"
      using seedEdges_inv [OF init_inv assms(1,2)] by simp
  next
    fix s assume "?I s"
    then show "floodInv w h s" by blast
  next
    fix s assume "?I s" "head s < length (queue s)"
    then show "?I (floodStep M P w h s)"
      by (simp add: floodStep_inv floodStep_fdata assms(3))
  qed
  then show ?thesis unfolding floodFrom_def by blast
qed

lemma bounded_run:
  assumes "floodInv w h st" and "head st = length (queue st)" and "length data = 4 * (w * h)"
  shows "distinct (queue st) \<and> length (queue st) \<le> w * h \<and> head st \<le> w * h
         \<and> (\<forall>v\<in>set (queue st). 0 \<le> v \<and> v < int (w * h))
         \<and> (\<forall>i\<in>set (touched st). 0 \<le> i \<and> i + 3 < int (length data))"
proof -
  from assms(1) have d: "distinct (queue st)"
    and q: "\<forall>v\<in>set (queue st). 0 \<le> v \<and> v < int (w * h)"
    and ts: "\<forall>i\<in>set (touched st). \<exists>v. i = v * 4 \<and> 0 \<le> v \<and> v < int (w * h)"
    unfolding floodInv_def by blast+
  have l: "length (queue st) \<le> w * h" using assms(1) by (rule queue_bound)
  have t: "\<forall>i\<in>set (touched st). 0 \<le> i \<and> i + 3 < int (length data)"
  proof
    fix i assume "i \<in> set (touched st)"
    with ts obtain v where "i = v * 4" "0 \<le> v" "v < int (w * h)" by blast
    then show "0 \<le> i \<and> i + 3 < int (length data)" using assms(3) by simp
  qed
  from d l q t assms(2) show ?thesis by simp
qed

section \<open>Claims about the flood fill\<close>

text \<open>
  C10. On every bitmap of width \<open>w > 0\<close> and height \<open>h > 0\<close> (four bytes per pixel) the
  flood fill of the export path returns, and so does the flood fill of the preview
  player: at the end the queue is exhausted, no pixel index occurs twice in it, it has at
  most \<open>w * h\<close> entries, the loop has run \<open>head\<close> times, which is at most \<open>w * h\<close>,
  every queued index is a pixel of the bitmap, and every pixel read or overwritten lies
  with its four bytes inside the array.
\<close>

theorem C10_flood_fill_terminates:
  assumes "0 < w" and "0 < h" and "length data = 4 * (w * h)"
  shows "(\<exists>st. applyFloodFill data w h t k thr = Some st
             \<and> length (fdata st) = length data
             \<and> distinct (queue st) \<and> length (queue st) \<le> w * h
             \<and> head st = length (queue st) \<and> head st \<le> w * h
             \<and> (\<forall>v\<in>set (queue st). 0 \<le> v \<and> v < int (w * h))
             \<and> (\<forall>i\<in>set (touched st). 0 \<le> i \<and> i + 3 < int (length data)))
         \<and> (\<exists>st. processTransparencyFlood data w h t thr = Some st
             \<and> length (fdata st) = length data
             \<and> distinct (queue st) \<and> length (queue st) \<le> w * h
             \<and> head st = length (queue st) \<and> head st \<le> w * h
             \<and> (\<forall>v\<in>set (queue st). 0 \<le> v \<and> v < int (w * h))
             \<and> (\<forall>i\<in>set (touched st). 0 \<le> i \<and> i + 3 < int (length data)))"
proof -
  have p1: "length (paintKey k d i) = length d" for d i by simp
  have p2: "length (clearAlpha d i) = length d" for d i by (simp add: clearAlpha_def)
  from floodFrom_bounded [where P = "paintKey k" and M = "matches t thr" and data = data,
      OF assms(1,2) p1]
  obtain st1 where s1: "applyFloodFill data w h t k thr = Some st1" "floodInv w h st1"
    "length (fdata st1) = length data" "head st1 = length (queue st1)"
    unfolding applyFloodFill_def by blast
  from floodFrom_bounded [where P = clearAlpha and M = "previewMatches t thr" and data = data,
      OF assms(1,2) p2]
  obtain st2 where s2: "processTransparencyFlood data w h t thr = Some st2" "floodInv w h st2"
    "length (fdata st2) = length data" "head st2 = length (queue st2)"
    unfolding processTransparencyFlood_def by blast
  note b1 = bounded_run [OF s1(2,4) assms(3)]
  note b2 = bounded_run [OF s2(2,4) assms(3)]
  have a: "\<exists>st. applyFloodFill data w h t k thr = Some st
             \<and> length (fdata st) = length data
             \<and> distinct (queue st) \<and> length (queue st) \<le> w * h
             \<and> head st = length (queue st) \<and> head st \<le> w * h
             \<and> (\<forall>v\<in>set (queue st). 0 \<le> v \<and> v < int (w * h))
             \<and> (\<forall>i\<in>set (touched st). 0 \<le> i \<and> i + 3 < int (length data))"
    using s1(1,3,4) b1 by blast
  have b: "\<exists>st. processTransparencyFlood data w h t thr = Some st
             \<and> length (fdata st) = length data
             \<and> distinct (queue st) \<and> length (queue st) \<le> w * h
             \<and> head st = length (queue st) \<and> head st \<le> w * h
             \<and> (\<forall>v\<in>set (queue st). 0 \<le> v \<and> v < int (w * h))
             \<and> (\<forall>i\<in>set (touched st). 0 \<le> i \<and> i + 3 < int (length data))"
    using s2(1,3,4) b2 by blast
  from a b show ?thesis by (rule conjI)
qed

text \<open>
  C10 on a bitmap of 4 by 4 pixels: a white top row and left column, a black ring, and a
  white pixel inside the ring. The run queues the seven white border pixels.
\<close>

lemma ring4_run:
  "map_option (\<lambda>st. (queue st, head st, touched st)) (applyFloodFill ring4 4 4 white magenta 100)
   = Some ([0, 12, 1, 2, 3, 4, 8], 7,
           [0, 48, 4, 52, 8, 56, 12, 60, 16, 28, 32, 44, 0, 48, 52, 4, 20, 8, 24,
            12, 28, 16, 20, 32, 36])"
  by code_simp

theorem C10_flood_fill_terminates_witness:
  "\<exists>st. applyFloodFill ring4 4 4 white magenta 100 = Some st
        \<and> queue st = [0, 12, 1, 2, 3, 4, 8] \<and> head st = 7
        \<and> length (queue st) \<le> 4 * 4
        \<and> (\<forall>i\<in>set (touched st). 0 \<le> i \<and> i + 3 < 64)"
proof -
  have len: "length ring4 = 4 * (4 * 4)" by (simp add: ring4_def)
  from C10_flood_fill_terminates [of 4 4 ring4 white magenta 100, OF _ _ len]
  obtain st where st: "applyFloodFill ring4 4 4 white magenta 100 = Some st"
    "length (queue st) \<le> 4 * 4" "\<forall>i\<in>set (touched st). 0 \<le> i \<and> i + 3 < int (length ring4)"
    by auto
  from ring4_run st(1) have "queue st = [0, 12, 1, 2, 3, 4, 8]" "head st = 7" by simp_all
  with st len show ?thesis by simp
qed

text \<open>
  C3. On every bitmap of width \<open>w > 0\<close> and height \<open>h > 0\<close> the flood fill returns, and
  it converts exactly the pixels reachable from a matching border pixel through a chain
  of matching north, south, east or west neighbours: those hold the opaque key colour and
  all others are unchanged. Hence for every region of matching pixels that touches no
  border pixel and whose neighbours outside the region do not match, the flood fill
  leaves every pixel of the region unchanged, while the global mode rewrites every pixel
  of it to the key colour.
\<close>

theorem C3_flood_fill_reachable:
  assumes "0 < w" and "0 < h" and "length data = 4 * (w * h)"
  shows "\<exists>st. applyFloodFill data w h t k thr = Some st
           \<and> (\<forall>p. inGrid w h p \<longrightarrow>
                  pixelAt w (fdata st) p
                  = (if reachable w h (matchesAt t thr w data) p then keyPixel k
                     else pixelAt w data p))
           \<and> (\<forall>R. (\<forall>p\<in>R. inGrid w h p \<and> matchesAt t thr w data p \<and> \<not> onBorder w h p
                          \<and> (\<forall>q\<in>set (neighbours p). inGrid w h q \<and> q \<notin> R
                                \<longrightarrow> \<not> matchesAt t thr w data q))
                  \<longrightarrow> (\<forall>p\<in>R. pixelAt w (fdata st) p = pixelAt w data p
                             \<and> pixelAt w (globalKey data t k thr) p = keyPixel k))"
proof -
  let ?T = "matchesAt t thr w data"
  from applyFloodFill_result [OF assms, of t k thr] obtain st
    where run: "applyFloodFill data w h t k thr = Some st"
      and inv: "keyLoopInv t thr k w h data st" and fin: "head st = length (queue st)"
    by blast
  have pix: "pixelAt w (fdata st) p = (if reachable w h ?T p then keyPixel k else pixelAt w data p)"
    if "inGrid w h p" for p
    using inv fin assms(1) that by (rule flood_pixels)
  have enc: "pixelAt w (fdata st) p = pixelAt w data p
             \<and> pixelAt w (globalKey data t k thr) p = keyPixel k"
    if R: "\<forall>p\<in>R. inGrid w h p \<and> ?T p \<and> \<not> onBorder w h p
                 \<and> (\<forall>q\<in>set (neighbours p). inGrid w h q \<and> q \<notin> R \<longrightarrow> \<not> ?T q)"
      and p: "p \<in> R" for R p
  proof -
    from R p have g: "inGrid w h p" and m: "?T p" by blast+
    have "\<not> reachable w h ?T p"
    proof
      assume "reachable w h ?T p"
      moreover from R have "\<forall>p\<in>R. \<not> onBorder w h p
          \<and> (\<forall>q\<in>set (neighbours p). inGrid w h q \<and> q \<notin> R \<longrightarrow> \<not> ?T q)" by blast
      ultimately have "p \<notin> R" by (rule enclosed_unreachable)
      with p show False by blast
    qed
    with pix [OF g] have a: "pixelAt w (fdata st) p = pixelAt w data p" by simp
    have b: "pixelAt w (globalKey data t k thr) p = keyPixel k"
      using globalKey_pixelAt [OF assms(3) g, of t k thr] m by simp
    from a b show ?thesis by (rule conjI)
  qed
  from run pix enc show ?thesis by blast
qed

text \<open>
  C3 on the bitmap of 4 by 4 pixels: the white pixel inside the black ring is kept by the
  flood fill and keyed by the global mode; the white corner is keyed by the flood fill.
\<close>

lemma ring4_pixels:
  "matchesAt white 100 4 ring4 (2, 2)"
  "\<not> matchesAt white 100 4 ring4 (3, 2)" "\<not> matchesAt white 100 4 ring4 (1, 2)"
  "\<not> matchesAt white 100 4 ring4 (2, 3)" "\<not> matchesAt white 100 4 ring4 (2, 1)"
  "pixelAt 4 ring4 (2, 2) = [Some 255, Some 255, Some 255, Some 255]"
  by (simp_all add: matchesAt_def matches_def pixelAt_def quad_def rdb_def distSq_def ring4_def
      white_def)

theorem C3_flood_fill_reachable_witness:
  "\<exists>st. applyFloodFill ring4 4 4 white magenta 100 = Some st
        \<and> pixelAt 4 (fdata st) (2, 2) = [Some 255, Some 255, Some 255, Some 255]
        \<and> pixelAt 4 (globalKey ring4 white magenta 100) (2, 2)
          = [Some 255, Some 0, Some 255, Some 255]
        \<and> pixelAt 4 (fdata st) (0, 0) = [Some 255, Some 0, Some 255, Some 255]"
proof -
  have len: "length ring4 = 4 * (4 * 4)" by (simp add: ring4_def)
  have key: "keyPixel magenta = [Some 255, Some 0, Some 255, Some 255]"
    by (simp add: keyPixel_def magenta_def uint_clamp8)
  have region: "\<forall>p\<in>{(2, 2)}. inGrid 4 4 p \<and> matchesAt white 100 4 ring4 p \<and> \<not> onBorder 4 4 p
                  \<and> (\<forall>q\<in>set (neighbours p). inGrid 4 4 q \<and> q \<notin> {(2, 2)}
                        \<longrightarrow> \<not> matchesAt white 100 4 ring4 q)"
    using ring4_pixels by (simp add: inGrid_def onBorder_def neighbours_def)
  have corner: "inGrid 4 4 (0, 0)" "reachable 4 4 (matchesAt white 100 4 ring4) (0, 0)"
    by (simp_all add: inGrid_def reachable.seed onBorder_def matchesAt_def matches_def rdb_def
        distSq_def ring4_def white_def)
  from C3_flood_fill_reachable [of 4 4 ring4 white magenta 100, OF _ _ len]
  obtain st where st: "applyFloodFill ring4 4 4 white magenta 100 = Some st"
    and pix: "\<forall>p. inGrid 4 4 p \<longrightarrow>
                  pixelAt 4 (fdata st) p
                  = (if reachable 4 4 (matchesAt white 100 4 ring4) p then keyPixel magenta
                     else pixelAt 4 ring4 p)"
    and enc: "\<forall>R. (\<forall>p\<in>R. inGrid 4 4 p \<and> matchesAt white 100 4 ring4 p \<and> \<not> onBorder 4 4 p
                          \<and> (\<forall>q\<in>set (neighbours p). inGrid 4 4 q \<and> q \<notin> R
                                \<longrightarrow> \<not> matchesAt white 100 4 ring4 q))
                  \<longrightarrow> (\<forall>p\<in>R. pixelAt 4 (fdata st) p = pixelAt 4 ring4 p
                             \<and> pixelAt 4 (globalKey ring4 white magenta 100) p = keyPixel magenta)"
    by auto
  from enc region have "pixelAt 4 (fdata st) (2, 2) = pixelAt 4 ring4 (2, 2)
      \<and> pixelAt 4 (globalKey ring4 white magenta 100) (2, 2) = keyPixel magenta"
    by blast
  moreover from pix corner have "pixelAt 4 (fdata st) (0, 0) = keyPixel magenta" by simp
  ultimately show ?thesis using st key ring4_pixels(6) by simp
qed

end
